theory Spec2Isabelle
  imports Complex_Main
begin

section \<open>Python strings\<close>

text \<open>
  A Python 3 \<^verbatim>\<open>str\<close> is a sequence of Unicode code points. It is modelled as a list of
  natural numbers, one per code point, so that \<^verbatim>\<open>len\<close>, slicing and the whitespace
  tests count what Python counts. \<open>py\<close> turns an ASCII literal into such a list.
\<close>

type_synonym pystr = "nat list"

definition py :: "string \<Rightarrow> pystr" where
  "py s = map of_char s"

definition NL :: nat where
  "NL = 10"

text \<open>
  The characters \<^verbatim>\<open>str.strip()\<close> and \<^verbatim>\<open>str.lstrip()\<close> remove when called without
  an argument: U+0009..U+000D, U+001C..U+0020, U+0085, U+00A0, U+1680, U+2000..U+200A,
  U+2028, U+2029, U+202F, U+205F and U+3000.
\<close>

definition py_isspace :: "nat \<Rightarrow> bool" where
  "py_isspace c =
     ((9 \<le> c \<and> c \<le> 13) \<or> (28 \<le> c \<and> c \<le> 32) \<or> c = 133 \<or> c = 160 \<or> c = 5760 \<or>
      (8192 \<le> c \<and> c \<le> 8202) \<or> c = 8232 \<or> c = 8233 \<or> c = 8239 \<or> c = 8287 \<or> c = 12288)"

definition lstrip :: "pystr \<Rightarrow> pystr" where
  "lstrip s = dropWhile py_isspace s"

definition rstrip :: "pystr \<Rightarrow> pystr" where
  "rstrip s = rev (dropWhile py_isspace (rev s))"

definition strip :: "pystr \<Rightarrow> pystr" where
  "strip s = rstrip (lstrip s)"

text \<open>\<^verbatim>\<open>s.startswith(p)\<close>\<close>

fun startswith :: "pystr \<Rightarrow> pystr \<Rightarrow> bool" where
  "startswith s [] = True"
| "startswith [] (p # ps) = False"
| "startswith (c # cs) (p # ps) = (c = p \<and> startswith cs ps)"

text \<open>\<^verbatim>\<open>sub in s\<close>: \<open>sub\<close> occurs in \<open>s\<close> as a contiguous substring.\<close>

fun py_in :: "pystr \<Rightarrow> pystr \<Rightarrow> bool" where
  "py_in sub [] = (sub = [])"
| "py_in sub (c # cs) = (startswith (c # cs) sub \<or> py_in sub cs)"

section \<open>The upstream file\<close>

text \<open>
  The state of the file at \<^verbatim>\<open>UPSTREAM_PATH\<close> is \<open>None\<close> when the file does not exist
  (opening it raises \<^verbatim>\<open>FileNotFoundError\<close>) and \<open>Some text\<close> otherwise, \<open>text\<close> being
  the decoded content as Python's text mode delivers it, every line ending already
  translated to a line feed. \<^verbatim>\<open>f.readlines()\<close> cuts the text after every line feed, each
  line keeping its terminator; \<^verbatim>\<open>f.writelines(ls)\<close> writes the concatenation of \<open>ls\<close>.
\<close>

fun readlines :: "pystr \<Rightarrow> pystr list" where
  "readlines [] = []"
| "readlines (c # cs) =
     (if c = NL then [c] # readlines cs
      else (case readlines cs of [] \<Rightarrow> [[c]] | l # ls \<Rightarrow> (c # l) # ls))"

definition writelines :: "pystr list \<Rightarrow> pystr" where
  "writelines ls = concat ls"

text \<open>\<^verbatim>\<open>f"# removed-by-monitor:{instance} "\<close>\<close>

definition marker :: "pystr \<Rightarrow> pystr" where
  "marker instance = py ''# removed-by-monitor:'' @ instance @ py '' ''"

text \<open>
  The test of line 78 of monitor.py on one line of the file. The source calls the line
  \<^verbatim>\<open>ln\<close>, which is the logarithm here.
\<close>

definition is_live_server :: "pystr \<Rightarrow> pystr \<Rightarrow> bool" where
  "is_live_server instance line =
     (let stripped = strip line
      in py_in instance line \<and> startswith stripped (py ''server'') \<and>
         \<not> startswith stripped (py ''#''))"

text \<open>
  The loop of \<^verbatim>\<open>comment_server_in_upstream\<close> over the lines, with its two variables
  \<^verbatim>\<open>changed\<close> and \<^verbatim>\<open>new_lines\<close>.
\<close>

fun comment_loop :: "pystr \<Rightarrow> pystr list \<Rightarrow> bool \<Rightarrow> pystr list \<Rightarrow> bool \<times> pystr list" where
  "comment_loop instance [] changed new_lines = (changed, new_lines)"
| "comment_loop instance (line # lns) changed new_lines =
     (if is_live_server instance line
      then comment_loop instance lns True (new_lines @ [marker instance @ lstrip line])
      else comment_loop instance lns changed (new_lines @ [line]))"

text \<open>
  \<^verbatim>\<open>comment_server_in_upstream(instance, dry_run)\<close>: the result is the returned boolean
  and the state of the file afterwards.
\<close>

definition comment_server_in_upstream ::
  "pystr \<Rightarrow> bool \<Rightarrow> pystr option \<Rightarrow> bool \<times> pystr option" where
  "comment_server_in_upstream instance dry_run file =
     (case file of
        None \<Rightarrow> (False, None)
      | Some text \<Rightarrow>
          (case comment_loop instance (readlines text) False [] of
             (changed, new_lines) \<Rightarrow>
               if \<not> changed then (False, file)
               else if dry_run then (True, file)
               else (True, Some (writelines new_lines))))"

text \<open>The loop of \<^verbatim>\<open>restore_server_in_upstream\<close>; \<^verbatim>\<open>ln[len(marker):]\<close> is \<open>drop\<close>.\<close>

fun restore_loop :: "pystr \<Rightarrow> pystr list \<Rightarrow> bool \<Rightarrow> pystr list \<Rightarrow> bool \<times> pystr list" where
  "restore_loop instance [] changed new_lines = (changed, new_lines)"
| "restore_loop instance (line # lns) changed new_lines =
     (if startswith line (marker instance)
      then restore_loop instance lns True
             (new_lines @ [py ''    '' @ drop (length (marker instance)) line])
      else restore_loop instance lns changed (new_lines @ [line]))"

definition restore_server_in_upstream ::
  "pystr \<Rightarrow> bool \<Rightarrow> pystr option \<Rightarrow> bool \<times> pystr option" where
  "restore_server_in_upstream instance dry_run file =
     (case file of
        None \<Rightarrow> (False, None)
      | Some text \<Rightarrow>
          (case restore_loop instance (readlines text) False [] of
             (changed, new_lines) \<Rightarrow>
               if \<not> changed then (False, file)
               else if dry_run then (True, file)
               else (True, Some (writelines new_lines))))"

section \<open>The control loop\<close>

text \<open>
  A Python \<^verbatim>\<open>float\<close>, as far as the loop uses it: the only operation is the comparison
  \<^verbatim>\<open>val >= args.threshold\<close>. A finite float is the real number it denotes; the
  infinities and NaN (which \<^verbatim>\<open>float("inf")\<close> and \<^verbatim>\<open>float("nan")\<close> produce) are values
  of their own. \<open>fge a b\<close> is \<^verbatim>\<open>a >= b\<close>: false whenever one side is NaN.
\<close>

datatype pyfloat = NaN | NegInf | Fin real | PosInf

fun fge :: "pyfloat \<Rightarrow> pyfloat \<Rightarrow> bool" where
  "fge NaN b = False"
| "fge a NaN = False"
| "fge PosInf b = True"
| "fge a NegInf = True"
| "fge (Fin a) (Fin b) = (b \<le> a)"
| "fge (Fin a) PosInf = False"
| "fge NegInf b = False"

text \<open>
  An entry of \<^verbatim>\<open>events_log\<close>: the event type, the instance and the detail. The detail
  string is kept as the values it is formatted from; the two timestamps of an entry are
  left out.
\<close>

datatype event_type =
  DEGRADATION_CONFIRMED | REMOVED_FROM_UPSTREAM | HEALTHY_AGAIN | RESTORED_TO_UPSTREAM

datatype detail = NoDetail | ValueCount pyfloat int | ValueOnly pyfloat

datatype event = Event event_type pystr detail

text \<open>
  The state the loop of \<^verbatim>\<open>main\<close> works on: its two local variables, the global event
  log and the upstream file. \<^verbatim>\<open>reload_nginx\<close> changes none of them and its result is
  ignored by \<^verbatim>\<open>main\<close>, so it does not appear.
\<close>

record monitor =
  state_counters :: "pystr \<rightharpoonup> int"
  removed_instances :: "pystr set"
  events_log :: "event list"
  upstream :: "pystr option"

definition log_event :: "event_type \<Rightarrow> pystr \<Rightarrow> detail \<Rightarrow> monitor \<Rightarrow> monitor" where
  "log_event event_type instance d s = s\<lparr>events_log := events_log s @ [Event event_type instance d]\<rparr>"

text \<open>\<^verbatim>\<open>state_counters.get(inst, 0)\<close>\<close>

definition counter_get :: "(pystr \<rightharpoonup> int) \<Rightarrow> pystr \<Rightarrow> int" where
  "counter_get counters inst = (case counters inst of None \<Rightarrow> 0 | Some n \<Rightarrow> n)"

text \<open>The unhealthy branch of the loop body (lines 205 to 213).\<close>

definition on_degraded :: "int \<Rightarrow> bool \<Rightarrow> pystr \<Rightarrow> pyfloat \<Rightarrow> monitor \<Rightarrow> monitor" where
  "on_degraded consecutive dry_run inst val s =
     (let n = counter_get (state_counters s) inst + 1;
          s1 = s\<lparr>state_counters := (state_counters s)(inst \<mapsto> n)\<rparr>
      in if inst \<notin> removed_instances s1 \<and> consecutive \<le> n
         then
           (let s2 = log_event DEGRADATION_CONFIRMED inst (ValueCount val n) s1
            in case comment_server_in_upstream inst dry_run (upstream s2) of
                 (changed, file) \<Rightarrow>
                   if changed
                   then log_event REMOVED_FROM_UPSTREAM inst NoDetail
                          (s2\<lparr>upstream := file,
                              removed_instances := insert inst (removed_instances s2)\<rparr>)
                   else s2\<lparr>upstream := file\<rparr>)
         else s1)"

text \<open>The healthy branch of the loop body (lines 215 to 226).\<close>

definition on_healthy :: "bool \<Rightarrow> pystr \<Rightarrow> pyfloat \<Rightarrow> monitor \<Rightarrow> monitor" where
  "on_healthy dry_run inst val s =
     (let s1 = (if 0 < counter_get (state_counters s) inst
                then s\<lparr>state_counters := (state_counters s)(inst \<mapsto> 0)\<rparr> else s)
      in if inst \<in> removed_instances s1
         then
           (let s2 = log_event HEALTHY_AGAIN inst (ValueOnly val) s1
            in case restore_server_in_upstream inst dry_run (upstream s2) of
                 (restored, file) \<Rightarrow>
                   if restored
                   then log_event RESTORED_TO_UPSTREAM inst NoDetail
                          (s2\<lparr>upstream := file,
                              removed_instances := removed_instances s2 - {inst}\<rparr>)
                   else s2\<lparr>upstream := file\<rparr>)
         else s1)"

text \<open>The body of \<^verbatim>\<open>for inst, val in states.items()\<close>.\<close>

definition process_sample ::
  "pyfloat \<Rightarrow> int \<Rightarrow> bool \<Rightarrow> pystr \<times> pyfloat \<Rightarrow> monitor \<Rightarrow> monitor" where
  "process_sample threshold consecutive dry_run sample s =
     (case sample of
        (inst, val) \<Rightarrow>
          if fge val threshold then on_degraded consecutive dry_run inst val s
          else on_healthy dry_run inst val s)"

text \<open>
  One iteration of \<^verbatim>\<open>while True\<close>, given \<open>states\<close>, the items of the dictionary
  \<^verbatim>\<open>parse_inventory_states\<close> returned, in its order: a \<^verbatim>\<open>Dict[str, float]\<close> by its
  declared type. A dictionary has every key once.
\<close>

definition poll_cycle ::
  "pyfloat \<Rightarrow> int \<Rightarrow> bool \<Rightarrow> (pystr \<times> pyfloat) list \<Rightarrow> monitor \<Rightarrow> monitor" where
  "poll_cycle threshold consecutive dry_run states s =
     fold (process_sample threshold consecutive dry_run) states s"

text \<open>The first iterations of the loop, one per element of \<open>polls\<close>.\<close>

definition run_polls ::
  "pyfloat \<Rightarrow> int \<Rightarrow> bool \<Rightarrow> (pystr \<times> pyfloat) list list \<Rightarrow> monitor \<Rightarrow> monitor" where
  "run_polls threshold consecutive dry_run polls s =
     fold (poll_cycle threshold consecutive dry_run) polls s"

text \<open>The state \<^verbatim>\<open>main\<close> enters the loop with, for a given upstream file.\<close>

definition initial :: "pystr option \<Rightarrow> monitor" where
  "initial file =
     \<lparr>state_counters = Map.empty, removed_instances = {}, events_log = [], upstream = file\<rparr>"

text \<open>
  The entries of the log that are about one instance, in the order of the log, and whether a
  poll has the instance with a value at or above the threshold.
\<close>

fun event_instance :: "event \<Rightarrow> pystr" where
  "event_instance (Event event_type instance d) = instance"

definition events_of :: "pystr \<Rightarrow> monitor \<Rightarrow> event list" where
  "events_of inst s = filter (\<lambda>e. event_instance e = inst) (events_log s)"

definition unhealthy_poll :: "pyfloat \<Rightarrow> pystr \<Rightarrow> (pystr \<times> pyfloat) list \<Rightarrow> bool" where
  "unhealthy_poll threshold inst states =
     (distinct (map fst states) \<and>
      (case map_of states inst of None \<Rightarrow> False | Some val \<Rightarrow> fge val threshold))"

text \<open>
  Two states of the loop are the same for an instance when its counter, its membership in
  \<^verbatim>\<open>removed_instances\<close> and its entries of the log are.
\<close>

definition same_for :: "pystr \<Rightarrow> monitor \<Rightarrow> monitor \<Rightarrow> bool" where
  "same_for inst s s' =
     (counter_get (state_counters s') inst = counter_get (state_counters s) inst \<and>
      (inst \<in> removed_instances s') = (inst \<in> removed_instances s) \<and>
      events_of inst s' = events_of inst s)"

section \<open>Auxiliary notions of the upstream editor\<close>

text \<open>
  What one iteration of each loop puts into \<^verbatim>\<open>new_lines\<close> for a line, and the line a
  disabled and then restored entry ends up as: its content without the leading whitespace,
  behind four spaces.
\<close>

definition comment_line :: "pystr \<Rightarrow> pystr \<Rightarrow> pystr" where
  "comment_line instance line =
     (if is_live_server instance line then marker instance @ lstrip line else line)"

definition restore_line :: "pystr \<Rightarrow> pystr \<Rightarrow> pystr" where
  "restore_line instance line =
     (if startswith line (marker instance)
      then py ''    '' @ drop (length (marker instance)) line else line)"

definition reindent :: "pystr \<Rightarrow> pystr \<Rightarrow> pystr" where
  "reindent instance line =
     (if is_live_server instance line then py ''    '' @ lstrip line else line)"

text \<open>
  A sequence of calls of the two functions, all with the same \<^verbatim>\<open>dry_run\<close>: the
  booleans they return, in order, and the file after the last one.
\<close>

datatype edit = Disable pystr | Enable pystr

definition apply_edit :: "bool \<Rightarrow> edit \<Rightarrow> pystr option \<Rightarrow> bool \<times> pystr option" where
  "apply_edit dry_run e file =
     (case e of
        Disable instance \<Rightarrow> comment_server_in_upstream instance dry_run file
      | Enable instance \<Rightarrow> restore_server_in_upstream instance dry_run file)"

fun apply_edits :: "bool \<Rightarrow> edit list \<Rightarrow> pystr option \<Rightarrow> bool list \<times> pystr option" where
  "apply_edits dry_run [] file = ([], file)"
| "apply_edits dry_run (e # es) file =
     (case apply_edit dry_run e file of
        (changed, file') \<Rightarrow>
          (case apply_edits dry_run es file' of
             (results, file'') \<Rightarrow> (changed # results, file'')))"

text \<open>
  The shape of the lines \<^verbatim>\<open>readlines\<close> returns: no line is empty, a line feed
  stands only at the end of a line, and every line but the last has one.
\<close>

definition line_ok :: "pystr \<Rightarrow> bool" where
  "line_ok l = (l \<noteq> [] \<and> NL \<notin> set (butlast l))"

fun lines_ok :: "pystr list \<Rightarrow> bool" where
  "lines_ok [] = True"
| "lines_ok [l] = line_ok l"
| "lines_ok (l # l' # ls) = (line_ok l \<and> last l = NL \<and> lines_ok (l' # ls))"

section \<open>JSON values and the health query\<close>

text \<open>
  What \<^verbatim>\<open>r.json()\<close> and Flask's \<^verbatim>\<open>request.get_json\<close> return: Python's \<^verbatim>\<open>None\<close>, a
  \<^verbatim>\<open>bool\<close>, an \<^verbatim>\<open>int\<close>, a finite \<^verbatim>\<open>float\<close>, a \<^verbatim>\<open>str\<close>, a \<^verbatim>\<open>list\<close> or a \<^verbatim>\<open>dict\<close> with
  string keys. A \<^verbatim>\<open>dict\<close> is the association list of its items, every key once, read by
  \<open>map_of\<close>. The decoder's extension to the literals \<^verbatim>\<open>NaN\<close> and \<^verbatim>\<open>Infinity\<close>, which are
  not JSON, is left out.
\<close>

datatype json =
  JNull | JBool bool | JInt int | JFloat real | JStr pystr | JArr "json list"
  | JObj "(pystr \<times> json) list"

datatype py_error = AttributeError | TypeError | KeyError

text \<open>\<^verbatim>\<open>bool(x)\<close>, as \<^verbatim>\<open>not x\<close>, \<^verbatim>\<open>x or y\<close> and \<^verbatim>\<open>if x\<close> use it.\<close>

fun py_truthy :: "json \<Rightarrow> bool" where
  "py_truthy JNull = False"
| "py_truthy (JBool b) = b"
| "py_truthy (JInt i) = (i \<noteq> 0)"
| "py_truthy (JFloat r) = (r \<noteq> 0)"
| "py_truthy (JStr s) = (s \<noteq> [])"
| "py_truthy (JArr xs) = (xs \<noteq> [])"
| "py_truthy (JObj kvs) = (kvs \<noteq> [])"

text \<open>A \<^verbatim>\<open>list\<close> and a \<^verbatim>\<open>dict\<close> cannot be hashed: as a key they raise \<^verbatim>\<open>TypeError\<close>.\<close>

fun hashable :: "json \<Rightarrow> bool" where
  "hashable (JArr xs) = False"
| "hashable (JObj kvs) = False"
| "hashable j = True"

text \<open>
  \<^verbatim>\<open>a == b\<close> on hashable values: numbers and booleans compare by value
  (\<^verbatim>\<open>True == 1 == 1.0\<close>), everything else with its own kind only.
\<close>

fun num_val :: "json \<Rightarrow> real option" where
  "num_val (JBool b) = Some (if b then 1 else 0)"
| "num_val (JInt i) = Some (of_int i)"
| "num_val (JFloat r) = Some r"
| "num_val j = None"

definition py_eq :: "json \<Rightarrow> json \<Rightarrow> bool" where
  "py_eq a b =
     (case (num_val a, num_val b) of
        (Some x, Some y) \<Rightarrow> x = y
      | (None, None) \<Rightarrow> a = b
      | _ \<Rightarrow> False)"

text \<open>\<^verbatim>\<open>x.get(key, default)\<close>: only a \<^verbatim>\<open>dict\<close> has the method.\<close>

definition json_get :: "json \<Rightarrow> pystr \<Rightarrow> json \<Rightarrow> py_error + json" where
  "json_get x key dflt =
     (case x of
        JObj kvs \<Rightarrow> Inr (case map_of kvs key of None \<Rightarrow> dflt | Some v \<Rightarrow> v)
      | _ \<Rightarrow> Inl AttributeError)"

text \<open>
  \<^verbatim>\<open>x[1]\<close>, \<open>None\<close> when it raises: \<^verbatim>\<open>IndexError\<close> on a short list or string,
  \<^verbatim>\<open>KeyError\<close> on a \<^verbatim>\<open>dict\<close> (its keys are strings), \<^verbatim>\<open>TypeError\<close> on the rest. The
  one caller catches every exception.
\<close>

fun subscript1 :: "json \<Rightarrow> json option" where
  "subscript1 (JArr xs) = (if 1 < length xs then Some (xs ! 1) else None)"
| "subscript1 (JStr s) = (if 1 < length s then Some (JStr [s ! 1]) else None)"
| "subscript1 j = None"

text \<open>
  \<^verbatim>\<open>for item in x\<close>: the elements of a list, the characters of a string, the keys of a
  \<^verbatim>\<open>dict\<close>; the other values are not iterable.
\<close>

fun py_iter :: "json \<Rightarrow> py_error + json list" where
  "py_iter (JArr xs) = Inr xs"
| "py_iter (JStr s) = Inr (map (\<lambda>c. JStr [c]) s)"
| "py_iter (JObj kvs) = Inr (map (\<lambda>kv. JStr (fst kv)) kvs)"
| "py_iter j = Inl TypeError"

text \<open>
  The dictionary \<^verbatim>\<open>out\<close>: its items in insertion order. \<^verbatim>\<open>out[k] = v\<close> replaces the
  value of the key equal to \<open>k\<close> when there is one and appends the item otherwise.
\<close>

type_synonym pydict = "(json \<times> pyfloat) list"

fun dict_update :: "json \<Rightarrow> pyfloat \<Rightarrow> pydict \<Rightarrow> pydict" where
  "dict_update k v [] = [(k, v)]"
| "dict_update k v ((k', v') # kvs) =
     (if py_eq k' k then (k', v) # kvs else (k', v') # dict_update k v kvs)"

definition dict_set :: "pydict \<Rightarrow> json \<Rightarrow> pyfloat \<Rightarrow> py_error + pydict" where
  "dict_set out k v = (if hashable k then Inr (dict_update k v out) else Inl TypeError)"

fun dict_get :: "pydict \<Rightarrow> json \<Rightarrow> pyfloat option" where
  "dict_get [] k = None"
| "dict_get ((k', v) # kvs) k = (if py_eq k' k then Some v else dict_get kvs k)"

text \<open>
  The three calls in the \<^verbatim>\<open>try\<close> of \<^verbatim>\<open>query_prom\<close>, by what the function sees of them:
  \<^verbatim>\<open>requests.get\<close> raises, \<^verbatim>\<open>raise_for_status\<close> raises, \<^verbatim>\<open>r.json()\<close> raises, or
  \<^verbatim>\<open>r.json()\<close> returns a value. \<^verbatim>\<open>None\<close> is \<open>JNull\<close>.
\<close>

datatype http_outcome = GetRaises | StatusRaises | JsonRaises | JsonValue json

definition query_prom :: "http_outcome \<Rightarrow> json" where
  "query_prom r = (case r of JsonValue j \<Rightarrow> j | _ \<Rightarrow> JNull)"

text \<open>
  The loop of \<^verbatim>\<open>parse_inventory_states\<close>. The built-in \<^verbatim>\<open>float\<close> is the parameter
  \<open>fl\<close>, \<open>None\<close> where it raises. The \<^verbatim>\<open>try\<close> covers \<^verbatim>\<open>item.get("value", [])\<close>, the
  subscript and \<^verbatim>\<open>float\<close>; the two \<^verbatim>\<open>get\<close> before it and the assignment after it are
  outside.
\<close>

fun parse_items :: "(json \<Rightarrow> pyfloat option) \<Rightarrow> json list \<Rightarrow> pydict \<Rightarrow> py_error + pydict" where
  "parse_items fl [] out = Inr out"
| "parse_items fl (item # items) out =
     (case json_get item (py ''metric'') (JObj []) of
        Inl e \<Rightarrow> Inl e
      | Inr metric \<Rightarrow>
          (case json_get metric (py ''instance'') JNull of
             Inl e \<Rightarrow> Inl e
           | Inr first \<Rightarrow>
               (case (if py_truthy first then Inr first
                      else json_get metric (py ''job'') JNull) of
                  Inl e \<Rightarrow> Inl e
                | Inr instance \<Rightarrow>
                    (case (case json_get item (py ''value'') (JArr []) of
                             Inl e \<Rightarrow> None
                           | Inr x \<Rightarrow> (case subscript1 x of None \<Rightarrow> None | Some y \<Rightarrow> fl y)) of
                       None \<Rightarrow> parse_items fl items out
                     | Some val \<Rightarrow>
                         if py_truthy instance
                         then (case dict_set out instance val of
                                 Inl e \<Rightarrow> Inl e
                               | Inr out' \<Rightarrow> parse_items fl items out')
                         else parse_items fl items out))))"

definition parse_inventory_states :: "(json \<Rightarrow> pyfloat option) \<Rightarrow> json \<Rightarrow> py_error + pydict" where
  "parse_inventory_states fl prom_json =
     (if \<not> py_truthy prom_json then Inr []
      else
        (case json_get prom_json (py ''status'') JNull of
           Inl e \<Rightarrow> Inl e
         | Inr status \<Rightarrow>
             if status \<noteq> JStr (py ''success'') then Inr []
             else
               (case json_get prom_json (py ''data'') (JObj []) of
                  Inl e \<Rightarrow> Inl e
                | Inr data \<Rightarrow>
                    (case json_get data (py ''result'') (JArr []) of
                       Inl e \<Rightarrow> Inl e
                     | Inr result \<Rightarrow>
                         (case py_iter result of
                            Inl e \<Rightarrow> Inl e
                          | Inr items \<Rightarrow> parse_items fl items [])))))"

text \<open>
  The envelope of section 6 of the specification: an object with \<^verbatim>\<open>status\<close>
  \<^verbatim>\<open>"success"\<close> whose \<^verbatim>\<open>data.result\<close> is a list of objects, the \<^verbatim>\<open>metric\<close> of each, when
  present, an object of string labels. What the specification asks of such an envelope:
  the label of a result is its \<^verbatim>\<open>instance\<close>, or its \<^verbatim>\<open>job\<close> when that is missing or
  empty; its value is \<^verbatim>\<open>float\<close> of the second element of \<^verbatim>\<open>value\<close>; results without
  either are left out.
\<close>

fun is_str :: "json \<Rightarrow> bool" where
  "is_str (JStr s) = True"
| "is_str j = False"

definition wf_item :: "json \<Rightarrow> bool" where
  "wf_item item =
     (case item of
        JObj kvs \<Rightarrow>
          (case map_of kvs (py ''metric'') of
             None \<Rightarrow> True
           | Some (JObj labels) \<Rightarrow> list_all (\<lambda>kv. is_str (snd kv)) labels
           | Some j \<Rightarrow> False)
      | _ \<Rightarrow> False)"

definition wf_envelope :: "json \<Rightarrow> bool" where
  "wf_envelope j =
     (case json_get j (py ''status'') JNull of
        Inr (JStr s) \<Rightarrow>
          s = py ''success'' \<and>
          (case json_get j (py ''data'') JNull of
             Inr data \<Rightarrow>
               (case json_get data (py ''result'') JNull of
                  Inr (JArr items) \<Rightarrow> list_all wf_item items
                | _ \<Rightarrow> False)
           | _ \<Rightarrow> False)
      | _ \<Rightarrow> False)"

definition envelope_items :: "json \<Rightarrow> json list" where
  "envelope_items j =
     (case json_get j (py ''data'') JNull of
        Inr data \<Rightarrow> (case json_get data (py ''result'') JNull of Inr (JArr items) \<Rightarrow> items | _ \<Rightarrow> [])
      | _ \<Rightarrow> [])"

fun str_or_empty :: "json option \<Rightarrow> pystr" where
  "str_or_empty (Some (JStr s)) = s"
| "str_or_empty j = []"

definition item_labels :: "json \<Rightarrow> (pystr \<times> json) list" where
  "item_labels item =
     (case item of
        JObj kvs \<Rightarrow> (case map_of kvs (py ''metric'') of Some (JObj labels) \<Rightarrow> labels | _ \<Rightarrow> [])
      | _ \<Rightarrow> [])"

definition item_label :: "json \<Rightarrow> pystr" where
  "item_label item =
     (if str_or_empty (map_of (item_labels item) (py ''instance'')) \<noteq> []
      then str_or_empty (map_of (item_labels item) (py ''instance''))
      else str_or_empty (map_of (item_labels item) (py ''job'')))"

definition item_value :: "(json \<Rightarrow> pyfloat option) \<Rightarrow> json \<Rightarrow> pyfloat option" where
  "item_value fl item =
     (case item of
        JObj kvs \<Rightarrow>
          (case map_of kvs (py ''value'') of
             None \<Rightarrow> None
           | Some x \<Rightarrow> (case subscript1 x of None \<Rightarrow> None | Some y \<Rightarrow> fl y))
      | _ \<Rightarrow> None)"

definition reported :: "(json \<Rightarrow> pyfloat option) \<Rightarrow> json list \<Rightarrow> (pystr \<times> pyfloat) list" where
  "reported fl items =
     List.map_filter
       (\<lambda>item. case item_value fl item of
                 None \<Rightarrow> None
               | Some v \<Rightarrow> if item_label item \<noteq> [] then Some (item_label item, v) else None)
       items"

text \<open>The dictionary after the assignments \<^verbatim>\<open>out[k] = v\<close> for the pairs given, in order.\<close>

definition stored :: "(pystr \<times> pyfloat) list \<Rightarrow> pydict \<Rightarrow> pydict" where
  "stored kvs out = fold (\<lambda>kv. dict_update (JStr (fst kv)) (snd kv)) kvs out"

text \<open>
  A fragment of \<^verbatim>\<open>float\<close> to run examples with: \<^verbatim>\<open>float("0")\<close>, \<^verbatim>\<open>float("1")\<close> and
  \<^verbatim>\<open>float("2")\<close>, and \<^verbatim>\<open>float(None)\<close>, which raises. The theorems are about every \<open>fl\<close>.
\<close>

definition float_sample :: "json \<Rightarrow> pyfloat option" where
  "float_sample j =
     (if j = JStr (py ''0'') then Some (Fin 0)
      else if j = JStr (py ''1'') then Some (Fin 1)
      else if j = JStr (py ''2'') then Some (Fin 2)
      else None)"

section \<open>The inventory service\<close>

text \<open>
  The state of app.py that \<^verbatim>\<open>POST /admin/state\<close> works on: the string in
  \<^verbatim>\<open>service_state["value"]\<close> and the value of the gauge \<^verbatim>\<open>SERVICE_STATE\<close>.
\<close>

definition STATE_VALUES :: "(pystr \<times> int) list" where
  "STATE_VALUES = [(py ''healthy'', 0), (py ''degraded'', 1), (py ''down'', 2)]"

record app =
  service_state :: pystr
  SERVICE_STATE :: real

text \<open>The module's initialisation: lines 12 and 28.\<close>

definition app_initial :: app where
  "app_initial = \<lparr>service_state = py ''healthy'', SERVICE_STATE = 0\<rparr>"

text \<open>
  \<^verbatim>\<open>set_state\<close> has two steps. Under \<^verbatim>\<open>state_lock\<close> it stores the string (lines 43 and
  44); after the lock is released it sets the gauge (line 45), where
  \<^verbatim>\<open>STATE_VALUES[new_state]\<close> raises \<^verbatim>\<open>KeyError\<close> for a string that is not a key. Within
  one request the second step follows the first.
\<close>

definition store_state :: "pystr \<Rightarrow> app \<Rightarrow> app" where
  "store_state new_state a = a\<lparr>service_state := new_state\<rparr>"

definition set_gauge :: "pystr \<Rightarrow> app \<Rightarrow> py_error option \<times> app" where
  "set_gauge new_state a =
     (case map_of STATE_VALUES new_state of
        None \<Rightarrow> (Some KeyError, a)
      | Some n \<Rightarrow> (None, a\<lparr>SERVICE_STATE := of_int n\<rparr>))"

definition set_state :: "pystr \<Rightarrow> app \<Rightarrow> py_error option \<times> app" where
  "set_state new_state a = set_gauge new_state (store_state new_state a)"

text \<open>
  The two responses of the handler: the error body with the allowed names and status 400,
  and the body with the new state and status 200.
\<close>

datatype response = Invalid_state "pystr list" nat | State_is pystr nat

text \<open>
  \<^verbatim>\<open>update_admin_state\<close>, given what \<^verbatim>\<open>request.get_json(silent=True)\<close> returned
  (\<open>JNull\<close> for \<^verbatim>\<open>None\<close>). \<^verbatim>\<open>new_state not in STATE_VALUES\<close> hashes \<^verbatim>\<open>new_state\<close>; a
  hashable value that is not a string equals no key.
\<close>

definition update_admin_state :: "json \<Rightarrow> app \<Rightarrow> (py_error + response) \<times> app" where
  "update_admin_state body a =
     (let content = (if py_truthy body then body else JObj [])
      in case json_get content (py ''state'') JNull of
           Inl e \<Rightarrow> (Inl e, a)
         | Inr new_state \<Rightarrow>
             if \<not> hashable new_state then (Inl TypeError, a)
             else
               (case new_state of
                  JStr st \<Rightarrow>
                    if st \<in> set (map fst STATE_VALUES)
                    then (case set_state st a of
                            (Some e, a') \<Rightarrow> (Inl e, a')
                          | (None, a') \<Rightarrow> (Inr (State_is st 200), a'))
                    else (Inr (Invalid_state (map fst STATE_VALUES) 400), a)
                | _ \<Rightarrow> (Inr (Invalid_state (map fst STATE_VALUES) 400), a)))"

text \<open>The claimed invariant: the stored state is a key and the gauge is its encoding.\<close>

definition state_consistent :: "app \<Rightarrow> bool" where
  "state_consistent a =
     (case map_of STATE_VALUES (service_state a) of
        None \<Rightarrow> False
      | Some n \<Rightarrow> SERVICE_STATE a = of_int n)"

text \<open>
  The server runs its handlers in threads, so the steps of two requests can interleave. The
  steps of a request that change the state are the two of \<^verbatim>\<open>set_state\<close>; a schedule is a
  sequence of such steps, and the schedules of two requests running together are the
  interleavings (\<open>shuffles\<close>) of their steps.
\<close>

datatype action = Store pystr | Gauge pystr

fun perform :: "action \<Rightarrow> app \<Rightarrow> app" where
  "perform (Store new_state) a = store_state new_state a"
| "perform (Gauge new_state) a = snd (set_gauge new_state a)"

definition handler_steps :: "pystr \<Rightarrow> action list" where
  "handler_steps new_state = [Store new_state, Gauge new_state]"

definition run_schedule :: "action list \<Rightarrow> app \<Rightarrow> app" where
  "run_schedule schedule a = fold perform schedule a"

text \<open>
  The service after a sequence of \<^verbatim>\<open>POST /admin/state\<close> requests handled one after the
  other.
\<close>

definition after_posts :: "json list \<Rightarrow> app \<Rightarrow> app" where
  "after_posts bodies a = fold (\<lambda>body a. snd (update_admin_state body a)) bodies a"

section \<open>The upstream editor: lines and files\<close>

lemma startswith_take: "startswith s p \<longleftrightarrow> take (length p) s = p"
  by (induction s p rule: startswith.induct) auto

lemma startswith_append [simp]: "startswith (p @ t) p"
  by (simp add: startswith_take)

lemma startswith_py_in: "startswith s p \<Longrightarrow> py_in p s"
  by (cases s) (auto simp: startswith_take)

lemma comment_loop_eq:
  "comment_loop k ls ch acc = (ch \<or> list_ex (is_live_server k) ls, acc @ map (comment_line k) ls)"
  by (induction ls arbitrary: ch acc) (auto simp: comment_line_def)

lemma restore_loop_eq:
  "restore_loop k ls ch acc =
     (ch \<or> list_ex (\<lambda>l. startswith l (marker k)) ls, acc @ map (restore_line k) ls)"
  by (induction ls arbitrary: ch acc) (auto simp: restore_line_def)

lemma concat_readlines: "concat (readlines s) = s"
  by (induction s) (auto split: list.splits)

lemma readlines_terminated:
  "NL \<notin> set p \<Longrightarrow> readlines (p @ NL # rest) = (p @ [NL]) # readlines rest"
  by (induction p) auto

lemma readlines_unterminated:
  "NL \<notin> set p \<Longrightarrow> p \<noteq> [] \<Longrightarrow> readlines p = [p]"
proof (induction p)
  case Nil
  then show ?case by simp
next
  case (Cons c cs)
  then show ?case by (cases cs) auto
qed

lemma readlines_last_line: "line_ok l \<Longrightarrow> readlines l = [l]"
proof -
  assume ok: "line_ok l"
  then have ne: "l \<noteq> []" and nb: "NL \<notin> set (butlast l)" by (auto simp: line_ok_def)
  show ?thesis
  proof (cases "last l = NL")
    case True
    with ne have "l = butlast l @ NL # []" by (metis append_butlast_last_id)
    then show ?thesis using readlines_terminated [OF nb, of "[]"] by simp
  next
    case False
    with ne nb have "NL \<notin> set l"
      by (metis append_butlast_last_id Un_iff empty_iff empty_set set_ConsD set_append)
    with ne show ?thesis by (rule_tac readlines_unterminated)
  qed
qed

lemma readlines_line_append:
  "line_ok l \<Longrightarrow> last l = NL \<Longrightarrow> readlines (l @ rest) = l # readlines rest"
proof -
  assume ok: "line_ok l" and nl: "last l = NL"
  then have ne: "l \<noteq> []" and nb: "NL \<notin> set (butlast l)" by (auto simp: line_ok_def)
  define p where "p = butlast l"
  from ne nl have l: "l = p @ [NL]" unfolding p_def by (metis append_butlast_last_id)
  from nb have "NL \<notin> set p" by (simp add: p_def)
  then have "readlines (p @ NL # rest) = (p @ [NL]) # readlines rest"
    by (rule readlines_terminated)
  then show ?thesis by (simp add: l)
qed

lemma readlines_concat: "lines_ok ls \<Longrightarrow> readlines (concat ls) = ls"
  by (induction ls rule: lines_ok.induct) (auto simp: readlines_last_line readlines_line_append)

lemma lines_ok_readlines: "lines_ok (readlines s)"
proof (induction s)
  case Nil
  then show ?case by simp
next
  case (Cons c cs)
  show ?case
  proof (cases "c = NL")
    case True
    then show ?thesis using Cons by (cases "readlines cs") (auto simp: line_ok_def)
  next
    case False
    show ?thesis
    proof (cases "readlines cs")
      case Nil
      then show ?thesis using False by (simp add: line_ok_def)
    next
      case (Cons l ls)
      then show ?thesis using False Cons.IH
        by (cases ls) (auto simp: line_ok_def)
    qed
  qed
qed

lemma lines_ok_map:
  "lines_ok ls \<Longrightarrow> (\<And>l. l \<in> set ls \<Longrightarrow> line_ok l \<Longrightarrow> line_ok (f l) \<and> last (f l) = last l)
     \<Longrightarrow> lines_ok (map f ls)"
  by (induction ls rule: lines_ok.induct) auto


lemma marker_no_NL: "NL \<notin> set k \<Longrightarrow> NL \<notin> set (marker k)"
  by (simp add: marker_def py_def NL_def)

lemma marker_Cons: "marker k = 35 # tl (marker k)"
  by (simp add: marker_def py_def)

lemma rstrip_Cons: "\<not> py_isspace c \<Longrightarrow> rstrip (c # r) = c # rstrip r"
  by (simp add: rstrip_def dropWhile_append)

lemma strip_nonspace: "\<not> py_isspace c \<Longrightarrow> strip (c # r) = c # rstrip r"
  by (simp add: strip_def lstrip_def rstrip_Cons)

lemma marked_not_live: "\<not> is_live_server k (marker k @ x)"
proof -
  have "\<not> py_isspace 35" by (simp add: py_isspace_def)
  then have "strip (marker k @ x) = 35 # rstrip (tl (marker k) @ x)"
    by (subst marker_Cons) (simp add: strip_nonspace)
  then show ?thesis by (simp add: is_live_server_def py_def)
qed

lemma live_lstrip_nonempty: "is_live_server k l \<Longrightarrow> lstrip l \<noteq> []"
  by (auto simp: is_live_server_def strip_def rstrip_def py_def)

lemma lstrip_line_ok:
  assumes "line_ok l" "lstrip l \<noteq> []" "NL \<notin> set p"
  shows "line_ok (p @ lstrip l) \<and> last (p @ lstrip l) = last l"
proof -
  have l: "l = takeWhile py_isspace l @ lstrip l" by (simp add: lstrip_def)
  with assms(2) have "butlast l = takeWhile py_isspace l @ butlast (lstrip l)"
    by (metis butlast_append)
  with assms(1) have "NL \<notin> set (butlast (lstrip l))" by (auto simp: line_ok_def)
  moreover from l assms(2) have "last l = last (lstrip l)" by (metis last_appendR)
  ultimately show ?thesis using assms(2,3) by (simp add: line_ok_def butlast_append)
qed

lemma comment_line_ok:
  assumes "NL \<notin> set k" "line_ok l"
  shows "line_ok (comment_line k l) \<and> last (comment_line k l) = last l"
proof (cases "is_live_server k l")
  case True
  then show ?thesis
    using lstrip_line_ok [OF assms(2) live_lstrip_nonempty [OF True] marker_no_NL [OF assms(1)]]
    by (simp only: comment_line_def if_True)
next
  case False
  then show ?thesis using assms(2) by (simp add: comment_line_def)
qed

lemma reindent_ok:
  assumes "line_ok l"
  shows "line_ok (reindent k l) \<and> last (reindent k l) = last l"
proof (cases "is_live_server k l")
  case True
  have "NL \<notin> set (py ''    '')" by (simp add: py_def NL_def)
  then show ?thesis
    using lstrip_line_ok [OF assms live_lstrip_nonempty [OF True]] True
    by (simp only: reindent_def if_True)
next
  case False
  then show ?thesis using assms by (simp add: reindent_def)
qed

lemma comment_line_not_live: "\<not> is_live_server k (comment_line k l)"
  by (simp add: comment_line_def marked_not_live)

lemma readlines_commented:
  "NL \<notin> set k \<Longrightarrow>
     readlines (writelines (map (comment_line k) (readlines text))) =
     map (comment_line k) (readlines text)"
  unfolding writelines_def
  by (intro readlines_concat lines_ok_map lines_ok_readlines comment_line_ok)

lemma readlines_reindented:
  "readlines (writelines (map (reindent k) (readlines text))) = map (reindent k) (readlines text)"
  unfolding writelines_def
  by (intro readlines_concat lines_ok_map lines_ok_readlines reindent_ok)

lemma comment_server_eq:
  "comment_server_in_upstream k d (Some text) =
     (if list_ex (is_live_server k) (readlines text)
      then (True, if d then Some text
                  else Some (writelines (map (comment_line k) (readlines text))))
      else (False, Some text))"
  by (simp add: comment_server_in_upstream_def comment_loop_eq)

lemma restore_server_eq:
  "restore_server_in_upstream k d (Some text) =
     (if list_ex (\<lambda>l. startswith l (marker k)) (readlines text)
      then (True, if d then Some text
                  else Some (writelines (map (restore_line k) (readlines text))))
      else (False, Some text))"
  by (simp add: restore_server_in_upstream_def restore_loop_eq)

lemma no_live_after_comment:
  "\<not> list_ex (is_live_server k) (map (comment_line k) ls)"
  by (simp add: list_ex_iff comment_line_not_live)

lemma restore_comment_line:
  "\<not> py_in (marker k) l \<Longrightarrow> restore_line k (comment_line k l) = reindent k l"
  using startswith_py_in [of l "marker k"]
  by (auto simp: restore_line_def comment_line_def reindent_def)

lemma marked_iff_live:
  "\<forall>l\<in>set ls. \<not> py_in (marker k) l \<Longrightarrow>
     list_ex (\<lambda>l. startswith l (marker k)) (map (comment_line k) ls) = list_ex (is_live_server k) ls"
proof -
  assume h: "\<forall>l\<in>set ls. \<not> py_in (marker k) l"
  have "startswith (comment_line k l) (marker k) = is_live_server k l" if "l \<in> set ls" for l
    using that h startswith_py_in [of l "marker k"] by (auto simp: comment_line_def)
  then show ?thesis by (simp add: list_ex_iff)
qed

lemma no_live_reindent: "\<not> list_ex (is_live_server k) ls \<Longrightarrow> map (reindent k) ls = ls"
  by (induction ls) (auto simp: reindent_def)

lemma no_live_comment: "\<not> list_ex (is_live_server k) ls \<Longrightarrow> map (comment_line k) ls = ls"
  by (induction ls) (auto simp: comment_line_def)

lemma lstrip_reindent: "lstrip (reindent k l) = lstrip l"
  by (simp add: reindent_def lstrip_def py_def py_isspace_def)

lemma comment_dry_run:
  "comment_server_in_upstream k True file = (fst (comment_server_in_upstream k False file), file)"
  by (cases "file") (simp_all add: comment_server_in_upstream_def split: prod.splits)

lemma restore_dry_run:
  "restore_server_in_upstream k True file = (fst (restore_server_in_upstream k False file), file)"
  by (cases "file") (simp_all add: restore_server_in_upstream_def split: prod.splits)

lemma apply_edit_dry_run: "apply_edit True e file = (fst (apply_edit False e file), file)"
  by (cases e) (simp_all add: apply_edit_def comment_dry_run restore_dry_run)

lemma py_in_middle: "py_in k (a @ k @ b)"
  by (induction a) (auto simp: startswith_py_in)

lemma marked_contains_key: "startswith l (marker k) \<Longrightarrow> py_in k l"
proof -
  assume "startswith l (marker k)"
  then have "l = marker k @ drop (length (marker k)) l"
    by (metis startswith_take append_take_drop_id)
  then have "l = py ''# removed-by-monitor:'' @ k @ (py '' '' @ drop (length (marker k)) l)"
    by (simp add: marker_def)
  then show ?thesis by (metis py_in_middle)
qed

lemma live_contains_key: "is_live_server k l \<Longrightarrow> py_in k l"
  by (simp add: is_live_server_def Let_def)

lemmas editor_eval =
  comment_server_in_upstream_def restore_server_in_upstream_def is_live_server_def
  strip_def lstrip_def rstrip_def py_isspace_def marker_def py_def NL_def writelines_def

subsection \<open>Round trip\<close>

text \<open>
  C3, as stated, fails for an instance key that holds a line feed: the marker then ends the
  commented line early, the file read again has one line more, and the restore finds no
  line that begins with the marker. Here the key is \<^verbatim>\<open>"a\\n"\<close> and the file is the one
  line \<^verbatim>\<open>"server a\\n"\<close>, which does not contain the marker: the committed disable
  reports a change, the committed restore reports none and leaves the marker line in the
  file.
\<close>

theorem disable_enable_round_trip_counterexample:
  "list_all (\<lambda>l. \<not> py_in (marker (py ''a'' @ [NL])) l) (readlines (py ''server a'' @ [NL])) \<and>
   comment_server_in_upstream (py ''a'' @ [NL]) False (Some (py ''server a'' @ [NL])) =
     (True, Some (py ''# removed-by-monitor:a'' @ [NL] @ py '' server a'' @ [NL])) \<and>
   restore_server_in_upstream (py ''a'' @ [NL]) False
     (Some (py ''# removed-by-monitor:a'' @ [NL] @ py '' server a'' @ [NL])) =
     (False, Some (py ''# removed-by-monitor:a'' @ [NL] @ py '' server a'' @ [NL]))"
  by (simp add: editor_eval)

text \<open>
  C3, amended: for every file text and every instance key \<open>k\<close> without a line feed, if no
  line of the file contains the marker of \<open>k\<close>, then a committed disable of \<open>k\<close> followed by
  a committed restore of \<open>k\<close> returns the boolean the disable returned and leaves the file
  with the lines \<open>map (reindent k)\<close> of the original ones: every line the disable rewrote
  is its original content without the leading whitespace, behind four spaces, and every
  other line is as it was. Read again, the file has exactly these lines, and each of them
  equals the original line up to leading whitespace.
\<close>

theorem disable_enable_round_trip:
  assumes "NL \<notin> set k" and "\<forall>l\<in>set (readlines text). \<not> py_in (marker k) l"
  shows "restore_server_in_upstream k False
           (snd (comment_server_in_upstream k False (Some text))) =
         (fst (comment_server_in_upstream k False (Some text)),
          Some (writelines (map (reindent k) (readlines text)))) \<and>
         readlines (writelines (map (reindent k) (readlines text))) =
           map (reindent k) (readlines text) \<and>
         list_all (\<lambda>l. lstrip (reindent k l) = lstrip l) (readlines text)"
proof (cases "list_ex (is_live_server k) (readlines text)")
  case True
  let ?ls = "readlines text"
  have m: "map (restore_line k) (map (comment_line k) ?ls) = map (reindent k) ?ls"
    using assms(2) by (simp add: restore_comment_line)
  have c1: "comment_server_in_upstream k False (Some text) =
              (True, Some (writelines (map (comment_line k) ?ls)))"
    using True by (simp add: comment_server_eq)
  have r: "readlines (writelines (map (comment_line k) ?ls)) = map (comment_line k) ?ls"
    using assms(1) by (rule readlines_commented)
  have ex: "list_ex (\<lambda>l. startswith l (marker k)) (map (comment_line k) ?ls)"
    using marked_iff_live [OF assms(2)] True by simp
  have c2: "restore_server_in_upstream k False (Some (writelines (map (comment_line k) ?ls))) =
              (True, Some (writelines (map (reindent k) ?ls)))"
    by (simp only: restore_server_eq r ex m if_True if_False)
  show ?thesis
    by (simp add: c1 c2 readlines_reindented list_all_iff lstrip_reindent)
next
  case False
  have "\<not> list_ex (\<lambda>l. startswith l (marker k)) (readlines text)"
    using assms(2) startswith_py_in by (auto simp: list_ex_iff)
  then show ?thesis
    using False
    by (simp add: comment_server_eq restore_server_eq readlines_reindented list_all_iff
        lstrip_reindent no_live_reindent writelines_def concat_readlines)
qed

theorem disable_enable_round_trip_witness:
  "NL \<notin> set (py ''a'') \<and>
   list_all (\<lambda>l. \<not> py_in (marker (py ''a'')) l) (readlines (py ''  server a;'' @ [NL])) \<and>
   restore_server_in_upstream (py ''a'') False
     (snd (comment_server_in_upstream (py ''a'') False (Some (py ''  server a;'' @ [NL])))) =
     (True, Some (py ''    server a;'' @ [NL]))"
proof -
  have h1: "NL \<notin> set (py ''a'')" by (simp add: py_def NL_def)
  have h2: "\<forall>l\<in>set (readlines (py ''  server a;'' @ [NL])). \<not> py_in (marker (py ''a'')) l"
    by (simp add: marker_def py_def NL_def)
  have e: "fst (comment_server_in_upstream (py ''a'') False (Some (py ''  server a;'' @ [NL])))"
    by (simp add: editor_eval)
  have w: "writelines (map (reindent (py ''a'')) (readlines (py ''  server a;'' @ [NL]))) =
             py ''    server a;'' @ [NL]"
    by (simp add: reindent_def editor_eval)
  from disable_enable_round_trip [OF h1 h2] h1 h2 e w
  show ?thesis by (simp add: list_all_iff)
qed

subsection \<open>Disabling twice\<close>

text \<open>
  C4, as stated, fails for the same key \<^verbatim>\<open>"a\\n"\<close> and file \<^verbatim>\<open>"server a\\n"\<close>: the
  committed disable reports a change, and so does a second disable of the file it wrote,
  which adds a second marker line.
\<close>

theorem disable_twice_counterexample:
  "comment_server_in_upstream (py ''a'' @ [NL]) False (Some (py ''server a'' @ [NL])) =
     (True, Some (py ''# removed-by-monitor:a'' @ [NL] @ py '' server a'' @ [NL])) \<and>
   comment_server_in_upstream (py ''a'' @ [NL]) False
     (Some (py ''# removed-by-monitor:a'' @ [NL] @ py '' server a'' @ [NL])) =
     (True, Some (py ''# removed-by-monitor:a'' @ [NL] @ py ''# removed-by-monitor:a'' @ [NL] @
                  py '' server a'' @ [NL]))"
  by (simp add: editor_eval)

text \<open>
  C4, amended: for every state of the file and every instance key \<open>k\<close> without a line feed,
  a disable of \<open>k\<close> (committing or not) applied to the file a committed disable of \<open>k\<close>
  left returns \<^verbatim>\<open>False\<close> and leaves that file as it is. This holds whether or not the
  first call reported a change.
\<close>

theorem disable_twice:
  assumes "NL \<notin> set k"
  shows "comment_server_in_upstream k d (snd (comment_server_in_upstream k False file)) =
           (False, snd (comment_server_in_upstream k False file))"
proof (cases "file")
  case None
  then show ?thesis by (simp add: comment_server_in_upstream_def)
next
  case (Some body)
  show ?thesis
  proof (cases "list_ex (is_live_server k) (readlines body)")
    case True
    then show ?thesis
      using readlines_commented [OF assms, of body] no_live_after_comment [of k "readlines body"]
      by (simp add: Some comment_server_eq)
  next
    case False
    then show ?thesis by (simp add: Some comment_server_eq)
  qed
qed

theorem disable_twice_witness:
  "NL \<notin> set (py ''a'') \<and>
   comment_server_in_upstream (py ''a'') False (Some (py ''  server a;'' @ [NL])) =
     (True, Some (py ''# removed-by-monitor:a server a;'' @ [NL])) \<and>
   comment_server_in_upstream (py ''a'') False
     (Some (py ''# removed-by-monitor:a server a;'' @ [NL])) =
     (False, Some (py ''# removed-by-monitor:a server a;'' @ [NL]))"
proof -
  have h: "NL \<notin> set (py ''a'')" by (simp add: py_def NL_def)
  have c: "comment_server_in_upstream (py ''a'') False (Some (py ''  server a;'' @ [NL])) =
     (True, Some (py ''# removed-by-monitor:a server a;'' @ [NL]))"
    by (simp add: editor_eval)
  from disable_twice [OF h, of False "Some (py ''  server a;'' @ [NL])"] h c
  show ?thesis by simp
qed

subsection \<open>Unrelated lines\<close>

text \<open>
  C5, as stated, fails when one key is a substring of the other: a disable of
  \<^verbatim>\<open>svc-1\<close> rewrites the line of the distinct instance \<^verbatim>\<open>svc-10\<close>, because the
  test of the loop is \<^verbatim>\<open>instance in ln\<close>.
\<close>

theorem unrelated_lines_unchanged_counterexample:
  "py ''svc-1'' \<noteq> py ''svc-10'' \<and>
   py_in (py ''svc-10'') (py ''server svc-10:8000;'' @ [NL]) \<and>
   comment_server_in_upstream (py ''svc-1'') False (Some (py ''server svc-10:8000;'' @ [NL])) =
     (True, Some (py ''# removed-by-monitor:svc-1 server svc-10:8000;'' @ [NL])) \<and>
   snd (comment_loop (py ''svc-1'') [py ''server svc-10:8000;'' @ [NL]] False []) \<noteq>
     [py ''server svc-10:8000;'' @ [NL]]"
  by (simp add: editor_eval)

text \<open>
  C5, amended: for all lines and every key \<open>k\<close>, the list each loop produces has one line
  per line read; the disable loop leaves every line unchanged that is not a live server
  line containing \<open>k\<close>, the restore loop every line that does not begin with the marker of
  \<open>k\<close>; so both leave unchanged every line in which \<open>k\<close> does not occur as a substring. A
  committing call leaves the file with the concatenation of that list of lines.
\<close>

theorem unrelated_lines_unchanged:
  "length (snd (comment_loop k ls False [])) = length ls \<and>
   length (snd (restore_loop k ls False [])) = length ls \<and>
   (\<forall>i<length ls.
      (\<not> is_live_server k (ls ! i) \<longrightarrow> snd (comment_loop k ls False []) ! i = ls ! i) \<and>
      (\<not> startswith (ls ! i) (marker k) \<longrightarrow> snd (restore_loop k ls False []) ! i = ls ! i) \<and>
      (\<not> py_in k (ls ! i) \<longrightarrow>
         snd (comment_loop k ls False []) ! i = ls ! i \<and>
         snd (restore_loop k ls False []) ! i = ls ! i)) \<and>
   snd (comment_server_in_upstream k False (Some text)) =
     Some (writelines (snd (comment_loop k (readlines text) False []))) \<and>
   snd (restore_server_in_upstream k False (Some text)) =
     Some (writelines (snd (restore_loop k (readlines text) False [])))"
proof -
  have a: "\<not> is_live_server k (ls ! i) \<Longrightarrow> comment_line k (ls ! i) = ls ! i" for i
    by (simp add: comment_line_def)
  have b: "\<not> startswith (ls ! i) (marker k) \<Longrightarrow> restore_line k (ls ! i) = ls ! i" for i
    by (simp add: restore_line_def)
  have c: "\<not> py_in k (ls ! i) \<Longrightarrow> \<not> is_live_server k (ls ! i) \<and> \<not> startswith (ls ! i) (marker k)" for i
    using live_contains_key marked_contains_key by blast
  have d: "\<not> list_ex (\<lambda>l. startswith l (marker k)) xs \<Longrightarrow> map (restore_line k) xs = xs" for xs
    by (induction xs) (auto simp: restore_line_def)
  have e: "snd (comment_server_in_upstream k False (Some text)) =
     Some (writelines (snd (comment_loop k (readlines text) False [])))"
    by (simp add: comment_server_eq comment_loop_eq no_live_comment writelines_def concat_readlines)
  have f: "snd (restore_server_in_upstream k False (Some text)) =
     Some (writelines (snd (restore_loop k (readlines text) False [])))"
    by (simp add: restore_server_eq restore_loop_eq d writelines_def concat_readlines)
  show ?thesis using a b c e f by (simp add: comment_loop_eq restore_loop_eq)
qed

theorem unrelated_lines_unchanged_witness:
  "\<not> py_in (py ''a'') (py ''server b;'' @ [NL]) \<and>
   snd (comment_loop (py ''a'') [py ''server a;'' @ [NL], py ''server b;'' @ [NL]] False []) ! 1 =
     py ''server b;'' @ [NL] \<and>
   snd (restore_loop (py ''a'') [py ''server a;'' @ [NL], py ''server b;'' @ [NL]] False []) ! 1 =
     py ''server b;'' @ [NL]"
proof -
  have h: "\<not> py_in (py ''a'') ([py ''server a;'' @ [NL], py ''server b;'' @ [NL]] ! 1)"
    by (simp add: py_def NL_def)
  from unrelated_lines_unchanged [of "py ''a''" "[py ''server a;'' @ [NL], py ''server b;'' @ [NL]]" "[]"]
  have "\<not> py_in (py ''a'') ([py ''server a;'' @ [NL], py ''server b;'' @ [NL]] ! 1) \<longrightarrow>
         snd (comment_loop (py ''a'') [py ''server a;'' @ [NL], py ''server b;'' @ [NL]] False []) ! 1
           = [py ''server a;'' @ [NL], py ''server b;'' @ [NL]] ! 1 \<and>
         snd (restore_loop (py ''a'') [py ''server a;'' @ [NL], py ''server b;'' @ [NL]] False []) ! 1
           = [py ''server a;'' @ [NL], py ''server b;'' @ [NL]] ! 1"
    by simp
  with h show ?thesis by simp
qed

subsection \<open>Dry run\<close>

text \<open>
  C8: with \<^verbatim>\<open>dry_run=True\<close>, a disable and a restore leave the file as it is and return
  the boolean the committing call returns on the same file; hence any sequence of such
  calls leaves the file as it is, each call returning what the committing call would on
  that file.
\<close>

theorem dry_run_isolation:
  "comment_server_in_upstream k True file = (fst (comment_server_in_upstream k False file), file) \<and>
   restore_server_in_upstream k True file = (fst (restore_server_in_upstream k False file), file) \<and>
   apply_edits True es file = (map (\<lambda>e. fst (apply_edit False e file)) es, file)"
proof -
  have "apply_edits True es file = (map (\<lambda>e. fst (apply_edit False e file)) es, file)"
    by (induction es) (simp_all add: apply_edit_dry_run)
  then show ?thesis by (simp add: comment_dry_run restore_dry_run)
qed

theorem dry_run_isolation_witness:
  "apply_edits True [Disable (py ''a''), Disable (py ''a''), Enable (py ''a'')]
     (Some (py ''  server a;'' @ [NL])) =
   ([True, True, False], Some (py ''  server a;'' @ [NL])) \<and>
   comment_server_in_upstream (py ''a'') False (Some (py ''  server a;'' @ [NL])) =
     (True, Some (py ''# removed-by-monitor:a server a;'' @ [NL]))"
proof -
  have c: "comment_server_in_upstream (py ''a'') False (Some (py ''  server a;'' @ [NL])) =
     (True, Some (py ''# removed-by-monitor:a server a;'' @ [NL]))"
    by (simp add: editor_eval)
  have r: "fst (restore_server_in_upstream (py ''a'') False (Some (py ''  server a;'' @ [NL]))) = False"
    by (simp add: editor_eval)
  from dry_run_isolation [of "py ''a''" "Some (py ''  server a;'' @ [NL])"
      "[Disable (py ''a''), Disable (py ''a''), Enable (py ''a'')]"] c r
  show ?thesis by (simp add: apply_edit_def)
qed

section \<open>The control loop: one sample, one poll, a run of polls\<close>

lemma on_degraded_below:
  assumes "inst \<in> removed_instances s \<or> counter_get (state_counters s) inst + 1 < c"
  shows "on_degraded c d inst v s =
           s\<lparr>state_counters := (state_counters s)(inst \<mapsto> counter_get (state_counters s) inst + 1)\<rparr>"
  using assms by (auto simp: on_degraded_def Let_def)

lemma on_degraded_fire:
  assumes "inst \<notin> removed_instances s" "c \<le> counter_get (state_counters s) inst + 1"
  shows "on_degraded c d inst v s =
           (let n = counter_get (state_counters s) inst + 1;
                r = comment_server_in_upstream inst d (upstream s)
            in s\<lparr>state_counters := (state_counters s)(inst \<mapsto> n),
                 removed_instances :=
                   (if fst r then insert inst (removed_instances s) else removed_instances s),
                 events_log := events_log s @ Event DEGRADATION_CONFIRMED inst (ValueCount v n) #
                   (if fst r then [Event REMOVED_FROM_UPSTREAM inst NoDetail] else []),
                 upstream := snd r\<rparr>)"
  using assms by (auto simp: on_degraded_def Let_def log_event_def split: prod.splits)

lemma on_healthy_not_removed:
  assumes "inst \<notin> removed_instances s"
  shows "on_healthy d inst v s =
           (if 0 < counter_get (state_counters s) inst
            then s\<lparr>state_counters := (state_counters s)(inst \<mapsto> 0)\<rparr> else s)"
  using assms by (auto simp: on_healthy_def Let_def)

lemma on_healthy_removed:
  assumes "inst \<in> removed_instances s"
  shows "on_healthy d inst v s =
           (let r = restore_server_in_upstream inst d (upstream s)
            in s\<lparr>state_counters :=
                   (if 0 < counter_get (state_counters s) inst then (state_counters s)(inst \<mapsto> 0)
                    else state_counters s),
                 removed_instances :=
                   (if fst r then removed_instances s - {inst} else removed_instances s),
                 events_log := events_log s @ Event HEALTHY_AGAIN inst (ValueOnly v) #
                   (if fst r then [Event RESTORED_TO_UPSTREAM inst NoDetail] else []),
                 upstream := snd r\<rparr>)"
  using assms by (auto simp: on_healthy_def Let_def log_event_def split: prod.splits)

lemma counter_get_upd [simp]: "counter_get (m(k \<mapsto> n)) k' = (if k' = k then n else counter_get m k')"
  by (simp add: counter_get_def)

lemma events_of_simps [simp]:
  "events_of inst (s\<lparr>events_log := es\<rparr>) = filter (\<lambda>e. event_instance e = inst) es"
  "events_of inst (s\<lparr>state_counters := m\<rparr>) = events_of inst s"
  "events_of inst (s\<lparr>removed_instances := r\<rparr>) = events_of inst s"
  "events_of inst (s\<lparr>upstream := f\<rparr>) = events_of inst s"
  by (simp_all add: events_of_def)

lemma same_for_refl [simp]: "same_for inst s s"
  by (simp add: same_for_def)

lemma same_for_trans: "same_for inst s s' \<Longrightarrow> same_for inst s' s'' \<Longrightarrow> same_for inst s s''"
  by (simp add: same_for_def)

lemma frame_sample:
  assumes "fst x \<noteq> inst"
  shows "same_for inst s (process_sample t c d x s)"
proof -
  obtain i v where x: "x = (i, v)" by (cases x)
  with assms have ne: "i \<noteq> inst" by simp
  show ?thesis
  proof (cases "fge v t")
    case True
    show ?thesis
    proof (cases "i \<notin> removed_instances s \<and> c \<le> counter_get (state_counters s) i + 1")
      case True
      then show ?thesis using \<open>fge v t\<close> ne
        by (simp add: x process_sample_def on_degraded_fire Let_def same_for_def events_of_def)
    next
      case False
      then have "i \<in> removed_instances s \<or> counter_get (state_counters s) i + 1 < c" by auto
      then show ?thesis using \<open>fge v t\<close> ne
        by (simp add: x process_sample_def on_degraded_below same_for_def)
    qed
  next
    case False
    then show ?thesis using ne
      by (cases "i \<in> removed_instances s")
         (simp_all add: x process_sample_def on_healthy_removed on_healthy_not_removed Let_def
            same_for_def events_of_def)
  qed
qed

lemma frame_poll:
  "inst \<notin> fst ` set xs \<Longrightarrow> same_for inst s (poll_cycle t c d xs s)"
proof (induction xs arbitrary: s)
  case Nil
  then show ?case by (simp add: poll_cycle_def)
next
  case (Cons x xs)
  then have "fst x \<noteq> inst" by auto
  then have a: "same_for inst s (process_sample t c d x s)" by (rule frame_sample)
  from Cons have "same_for inst (process_sample t c d x s)
                    (poll_cycle t c d xs (process_sample t c d x s))" by simp
  with a show ?case by (simp add: poll_cycle_def same_for_trans)
qed

lemma poll_cycle_split:
  "poll_cycle t c d (pre @ x # post) s =
     poll_cycle t c d post (process_sample t c d x (poll_cycle t c d pre s))"
  by (simp add: poll_cycle_def)

lemma unhealthy_poll_split:
  assumes "unhealthy_poll t inst states"
  obtains pre v post where "states = pre @ (inst, v) # post" "fge v t"
    "inst \<notin> fst ` set pre" "inst \<notin> fst ` set post"
proof -
  from assms obtain v where v: "map_of states inst = Some v" "fge v t" and d: "distinct (map fst states)"
    by (auto simp: unhealthy_poll_def split: option.splits)
  from v(1) have "(inst, v) \<in> set states" by (rule map_of_SomeD)
  then obtain pre post where sp: "states = pre @ (inst, v) # post" by (auto dest: split_list)
  with d have "inst \<notin> fst ` set pre" "inst \<notin> fst ` set post" by auto
  with sp v(2) that show thesis by blast
qed


lemma run_polls_Nil [simp]: "run_polls t c d [] s = s"
  by (simp add: run_polls_def)

lemma run_polls_Cons [simp]:
  "run_polls t c d (p # ps) s = run_polls t c d ps (poll_cycle t c d p s)"
  by (simp add: run_polls_def)

lemma run_polls_append [simp]:
  "run_polls t c d (ps @ qs) s = run_polls t c d qs (run_polls t c d ps s)"
  by (simp add: run_polls_def)

text \<open>One unhealthy sample of an instance that is below the threshold count or removed.\<close>

lemma degraded_quiet:
  assumes "fge v t" "inst \<in> removed_instances s \<or> counter_get (state_counters s) inst + 1 < c"
  shows "counter_get (state_counters (process_sample t c d (inst, v) s)) inst =
           counter_get (state_counters s) inst + 1 \<and>
         removed_instances (process_sample t c d (inst, v) s) = removed_instances s \<and>
         events_log (process_sample t c d (inst, v) s) = events_log s \<and>
         upstream (process_sample t c d (inst, v) s) = upstream s"
  using assms by (simp add: process_sample_def on_degraded_below)

lemma degraded_fire:
  assumes "fge v t" "inst \<notin> removed_instances s" "c \<le> counter_get (state_counters s) inst + 1"
  shows "counter_get (state_counters (process_sample t c d (inst, v) s)) inst =
           counter_get (state_counters s) inst + 1 \<and>
         removed_instances (process_sample t c d (inst, v) s) =
           (if fst (comment_server_in_upstream inst d (upstream s))
            then insert inst (removed_instances s) else removed_instances s) \<and>
         events_log (process_sample t c d (inst, v) s) =
           events_log s @
           Event DEGRADATION_CONFIRMED inst (ValueCount v (counter_get (state_counters s) inst + 1)) #
           (if fst (comment_server_in_upstream inst d (upstream s))
            then [Event REMOVED_FROM_UPSTREAM inst NoDetail] else []) \<and>
         upstream (process_sample t c d (inst, v) s) =
           snd (comment_server_in_upstream inst d (upstream s))"
  using assms by (simp add: process_sample_def on_degraded_fire Let_def)

lemma healthy_step:
  assumes "\<not> fge v t" "0 \<le> counter_get (state_counters s) inst"
  shows "counter_get (state_counters (process_sample t c d (inst, v) s)) inst = 0 \<and>
         removed_instances (process_sample t c d (inst, v) s) =
           (if inst \<in> removed_instances s \<and> fst (restore_server_in_upstream inst d (upstream s))
            then removed_instances s - {inst} else removed_instances s) \<and>
         events_log (process_sample t c d (inst, v) s) =
           events_log s @
           (if inst \<in> removed_instances s
            then Event HEALTHY_AGAIN inst (ValueOnly v) #
                 (if fst (restore_server_in_upstream inst d (upstream s))
                  then [Event RESTORED_TO_UPSTREAM inst NoDetail] else [])
            else []) \<and>
         upstream (process_sample t c d (inst, v) s) =
           (if inst \<in> removed_instances s
            then snd (restore_server_in_upstream inst d (upstream s)) else upstream s)"
proof (cases "inst \<in> removed_instances s")
  case True
  then show ?thesis using assms
    by (auto simp: process_sample_def on_healthy_removed Let_def counter_get_def split: option.splits)
next
  case False
  then show ?thesis using assms
    by (auto simp: process_sample_def on_healthy_not_removed counter_get_def split: option.splits)
qed

text \<open>A poll in which the instance is unhealthy, seen from the instance.\<close>

lemma poll_quiet:
  assumes "unhealthy_poll t inst states"
    and "inst \<in> removed_instances s \<or> counter_get (state_counters s) inst + 1 < c"
  shows "counter_get (state_counters (poll_cycle t c d states s)) inst =
           counter_get (state_counters s) inst + 1 \<and>
         (inst \<in> removed_instances (poll_cycle t c d states s)) = (inst \<in> removed_instances s) \<and>
         events_of inst (poll_cycle t c d states s) = events_of inst s"
proof -
  from assms(1) obtain pre v post where sp: "states = pre @ (inst, v) # post" and v: "fge v t"
    and pre: "inst \<notin> fst ` set pre" and post: "inst \<notin> fst ` set post"
    by (rule unhealthy_poll_split)
  let ?s1 = "poll_cycle t c d pre s"
  let ?s2 = "process_sample t c d (inst, v) ?s1"
  have f1: "same_for inst s ?s1" using pre by (rule frame_poll)
  then have "inst \<in> removed_instances ?s1 \<or> counter_get (state_counters ?s1) inst + 1 < c"
    using assms(2) by (simp add: same_for_def)
  from degraded_quiet [OF v this, of d]
  have q: "counter_get (state_counters ?s2) inst = counter_get (state_counters ?s1) inst + 1"
    "removed_instances ?s2 = removed_instances ?s1" "events_log ?s2 = events_log ?s1"
    by simp_all
  have f2: "same_for inst ?s2 (poll_cycle t c d post ?s2)" using post by (rule frame_poll)
  show ?thesis using f1 f2 q by (simp add: sp poll_cycle_split same_for_def events_of_def)
qed

lemma polls_below:
  assumes "list_all (unhealthy_poll t inst) polls" "inst \<notin> removed_instances s"
    and "counter_get (state_counters s) inst + int (length polls) < c"
  shows "counter_get (state_counters (run_polls t c d polls s)) inst =
           counter_get (state_counters s) inst + int (length polls) \<and>
         inst \<notin> removed_instances (run_polls t c d polls s) \<and>
         events_of inst (run_polls t c d polls s) = events_of inst s"
  using assms
proof (induction polls arbitrary: s)
  case Nil
  then show ?case by simp
next
  case (Cons p ps)
  from Cons.prems have p: "unhealthy_poll t inst p" and ps: "list_all (unhealthy_poll t inst) ps"
    by simp_all
  from Cons.prems have "inst \<in> removed_instances s \<or> counter_get (state_counters s) inst + 1 < c"
    by simp
  from poll_quiet [OF p this, of d] Cons.prems(2)
  have q: "counter_get (state_counters (poll_cycle t c d p s)) inst =
             counter_get (state_counters s) inst + 1"
    "inst \<notin> removed_instances (poll_cycle t c d p s)"
    "events_of inst (poll_cycle t c d p s) = events_of inst s"
    by simp_all
  from Cons.prems(3) q(1)
  have "counter_get (state_counters (poll_cycle t c d p s)) inst + int (length ps) < c" by simp
  from Cons.IH [OF ps q(2) this] q show ?case by simp
qed

lemma polls_removed:
  assumes "list_all (unhealthy_poll t inst) polls" "inst \<in> removed_instances s"
  shows "inst \<in> removed_instances (run_polls t c d polls s) \<and>
         events_of inst (run_polls t c d polls s) = events_of inst s"
  using assms
proof (induction polls arbitrary: s)
  case Nil
  then show ?case by simp
next
  case (Cons p ps)
  from Cons.prems have p: "unhealthy_poll t inst p" and ps: "list_all (unhealthy_poll t inst) ps"
    by simp_all
  from Cons.prems(2) have "inst \<in> removed_instances s \<or> counter_get (state_counters s) inst + 1 < c"
    by simp
  from poll_quiet [OF p this, of d] Cons.prems(2)
  have q: "inst \<in> removed_instances (poll_cycle t c d p s)"
    "events_of inst (poll_cycle t c d p s) = events_of inst s"
    by simp_all
  from Cons.IH [OF ps q(1)] q show ?case by simp
qed

lemma poll_fire:
  assumes "distinct (map fst (pre @ (inst, v) # post))" "fge v t"
    and "inst \<notin> removed_instances s" "c \<le> counter_get (state_counters s) inst + 1"
    and "fst (comment_server_in_upstream inst d (upstream (poll_cycle t c d pre s)))"
  shows "inst \<in> removed_instances (poll_cycle t c d (pre @ (inst, v) # post) s) \<and>
         events_of inst (poll_cycle t c d (pre @ (inst, v) # post) s) =
           events_of inst s @
           [Event DEGRADATION_CONFIRMED inst (ValueCount v (counter_get (state_counters s) inst + 1)),
            Event REMOVED_FROM_UPSTREAM inst NoDetail]"
proof -
  from assms(1) have pre: "inst \<notin> fst ` set pre" and post: "inst \<notin> fst ` set post" by auto
  let ?s1 = "poll_cycle t c d pre s"
  let ?s2 = "process_sample t c d (inst, v) ?s1"
  have f1: "same_for inst s ?s1" using pre by (rule frame_poll)
  then have a: "inst \<notin> removed_instances ?s1" "c \<le> counter_get (state_counters ?s1) inst + 1"
    using assms(3,4) by (simp_all add: same_for_def)
  from degraded_fire [OF assms(2) a, of d] assms(5)
  have q: "removed_instances ?s2 = insert inst (removed_instances ?s1)"
    "events_log ?s2 = events_log ?s1 @
       [Event DEGRADATION_CONFIRMED inst (ValueCount v (counter_get (state_counters ?s1) inst + 1)),
        Event REMOVED_FROM_UPSTREAM inst NoDetail]"
    by simp_all
  have f2: "same_for inst ?s2 (poll_cycle t c d post ?s2)" using post by (rule frame_poll)
  show ?thesis using f1 f2 q by (simp add: poll_cycle_split same_for_def events_of_def)
qed


lemma counters_nonneg_sample:
  assumes "\<forall>i. 0 \<le> counter_get (state_counters s) i"
  shows "\<forall>i. 0 \<le> counter_get (state_counters (process_sample t c d x s)) i"
proof -
  obtain inst v where x: "x = (inst, v)" by (cases x)
  from assms have a: "0 \<le> counter_get (state_counters s) i" for i by simp
  show ?thesis
  proof (cases "fge v t")
    case True
    show ?thesis
    proof (cases "inst \<notin> removed_instances s \<and> c \<le> counter_get (state_counters s) inst + 1")
      case True
      then show ?thesis using \<open>fge v t\<close> a
        by (simp add: x process_sample_def on_degraded_fire Let_def)
    next
      case False
      then have "inst \<in> removed_instances s \<or> counter_get (state_counters s) inst + 1 < c" by auto
      then show ?thesis using \<open>fge v t\<close> a
        by (simp add: x process_sample_def on_degraded_below)
    qed
  next
    case False
    then show ?thesis using a
      by (cases "inst \<in> removed_instances s")
         (simp_all add: x process_sample_def on_healthy_removed on_healthy_not_removed Let_def)
  qed
qed

lemma counters_nonneg_poll:
  "\<forall>i. 0 \<le> counter_get (state_counters s) i \<Longrightarrow>
     \<forall>i. 0 \<le> counter_get (state_counters (poll_cycle t c d xs s)) i"
  unfolding poll_cycle_def
  by (induction xs arbitrary: s) (simp_all add: counters_nonneg_sample)

lemma counters_nonneg_run:
  "\<forall>i. 0 \<le> counter_get (state_counters (run_polls t c d polls (initial f))) i"
proof -
  have "\<forall>i. 0 \<le> counter_get (state_counters s) i \<Longrightarrow>
        \<forall>i. 0 \<le> counter_get (state_counters (run_polls t c d polls s)) i" for s
    by (induction polls arbitrary: s) (simp_all add: counters_nonneg_poll)
  then show ?thesis by (simp add: initial_def counter_get_def)
qed

lemmas loop_eval =
  process_sample_def on_degraded_def on_healthy_def log_event_def counter_get_def
  poll_cycle_def run_polls_def initial_def events_of_def unhealthy_poll_def

text \<open>
  C1, as stated, fails when the run of unhealthy polls does not start from the zero state.
  An instance that is absent from a poll keeps its counter: with \<open>c = 2\<close>, after an
  unhealthy poll and a poll without data the instance is not removed, and the next
  unhealthy poll, a run of \<open>c - 1 = 1\<close>, removes it. And an instance that is still marked
  removed is not removed again: in a dry run with \<open>c = 1\<close> the removal marks the instance
  without writing the file, the healthy sample finds no marked line to restore and leaves
  it marked, and the unhealthy poll that follows, a run of \<open>c\<close>, adds nothing to the log.
\<close>

theorem hysteresis_counterexample:
  "removed_instances
     (run_polls (Fin 1) 2 False [[(py ''a'', Fin 1)], []]
        (initial (Some (py ''  server a;'' @ [NL])))) = {} \<and>
   counter_get (state_counters
     (run_polls (Fin 1) 2 False [[(py ''a'', Fin 1)], []]
        (initial (Some (py ''  server a;'' @ [NL]))))) (py ''a'') = 1 \<and>
   removed_instances
     (run_polls (Fin 1) 2 False [[(py ''a'', Fin 1)], [], [(py ''a'', Fin 1)]]
        (initial (Some (py ''  server a;'' @ [NL])))) = {py ''a''} \<and>
   events_log
     (run_polls (Fin 1) 1 True [[(py ''a'', Fin 1)], [(py ''a'', Fin 0)]]
        (initial (Some (py ''  server a;'' @ [NL])))) =
     [Event DEGRADATION_CONFIRMED (py ''a'') (ValueCount (Fin 1) 1),
      Event REMOVED_FROM_UPSTREAM (py ''a'') NoDetail,
      Event HEALTHY_AGAIN (py ''a'') (ValueOnly (Fin 0))] \<and>
   counter_get (state_counters
     (run_polls (Fin 1) 1 True [[(py ''a'', Fin 1)], [(py ''a'', Fin 0)]]
        (initial (Some (py ''  server a;'' @ [NL]))))) (py ''a'') = 0 \<and>
   events_log
     (run_polls (Fin 1) 1 True [[(py ''a'', Fin 1)], [(py ''a'', Fin 0)], [(py ''a'', Fin 1)]]
        (initial (Some (py ''  server a;'' @ [NL])))) =
     [Event DEGRADATION_CONFIRMED (py ''a'') (ValueCount (Fin 1) 1),
      Event REMOVED_FROM_UPSTREAM (py ''a'') NoDetail,
      Event HEALTHY_AGAIN (py ''a'') (ValueOnly (Fin 0))]"
  by (simp add: loop_eval editor_eval)

text \<open>
  C1, amended (hysteresis). Let \<open>c \<ge> 1\<close>, and let an instance start with counter 0 and
  outside \<^verbatim>\<open>removed_instances\<close>, as it does when first seen and after a healthy sample
  that left it not removed. Let \<open>c - 1\<close> polls follow in which it is unhealthy (value at or
  above the threshold), then a \<open>c\<close>-th such poll in which the disable edit, at the moment the
  loop reaches the instance, reports a change, then any number of further polls in which
  it is unhealthy. Then after each of the first \<open>c - 1\<close> polls the instance is not removed
  and the log has no new entry about it; after the \<open>c\<close>-th it is removed and the log has
  gained, about it, one \<^verbatim>\<open>DEGRADATION_CONFIRMED\<close> and one \<^verbatim>\<open>REMOVED_FROM_UPSTREAM\<close>; and
  after each later poll it is still removed and the log has gained nothing more about it.
  Other instances may be part of every poll.
\<close>

theorem hysteresis:
  assumes "1 \<le> c"
    and "counter_get (state_counters s0) inst = 0" and "inst \<notin> removed_instances s0"
    and "int (length before) = c - 1" and "list_all (unhealthy_poll t inst) before"
    and "distinct (map fst (pre @ (inst, v) # post))" and "fge v t"
    and "fst (comment_server_in_upstream inst d
              (upstream (poll_cycle t c d pre (run_polls t c d before s0))))"
    and "list_all (unhealthy_poll t inst) later"
  shows "(\<forall>n\<le>length before.
            inst \<notin> removed_instances (run_polls t c d (take n before) s0) \<and>
            events_of inst (run_polls t c d (take n before) s0) = events_of inst s0) \<and>
         inst \<in> removed_instances (run_polls t c d (before @ [pre @ (inst, v) # post]) s0) \<and>
         events_of inst (run_polls t c d (before @ [pre @ (inst, v) # post]) s0) =
           events_of inst s0 @
           [Event DEGRADATION_CONFIRMED inst (ValueCount v c),
            Event REMOVED_FROM_UPSTREAM inst NoDetail] \<and>
         (\<forall>n\<le>length later.
            inst \<in> removed_instances
              (run_polls t c d (before @ [pre @ (inst, v) # post] @ take n later) s0) \<and>
            events_of inst
              (run_polls t c d (before @ [pre @ (inst, v) # post] @ take n later) s0) =
              events_of inst s0 @
              [Event DEGRADATION_CONFIRMED inst (ValueCount v c),
               Event REMOVED_FROM_UPSTREAM inst NoDetail])"
proof -
  let ?sb = "run_polls t c d before s0"
  let ?cth = "pre @ (inst, v) # post"
  let ?sc = "poll_cycle t c d ?cth ?sb"
  have early: "inst \<notin> removed_instances (run_polls t c d (take n before) s0) \<and>
               events_of inst (run_polls t c d (take n before) s0) = events_of inst s0"
    if "n \<le> length before" for n
  proof -
    have a: "list_all (unhealthy_poll t inst) (take n before)"
      using assms(5) by (auto simp: list_all_iff dest: in_set_takeD)
    have b: "counter_get (state_counters s0) inst + int (length (take n before)) < c"
      using assms(2,4) that by simp
    from polls_below [OF a assms(3) b, of d] show ?thesis by simp
  qed
  have "counter_get (state_counters s0) inst + int (length before) < c" using assms(2,4) by simp
  from polls_below [OF assms(5) assms(3) this, of d]
  have sb: "counter_get (state_counters ?sb) inst = c - 1" "inst \<notin> removed_instances ?sb"
    "events_of inst ?sb = events_of inst s0"
    using assms(2,4) by simp_all
  from sb(1) have "c \<le> counter_get (state_counters ?sb) inst + 1" by simp
  from poll_fire [OF assms(6,7) sb(2) this assms(8)] sb(1,3)
  have sc: "inst \<in> removed_instances ?sc"
    "events_of inst ?sc = events_of inst s0 @
       [Event DEGRADATION_CONFIRMED inst (ValueCount v c), Event REMOVED_FROM_UPSTREAM inst NoDetail]"
    by simp_all
  have late: "inst \<in> removed_instances (run_polls t c d (take n later) ?sc) \<and>
              events_of inst (run_polls t c d (take n later) ?sc) = events_of inst ?sc" for n
  proof -
    have a: "list_all (unhealthy_poll t inst) (take n later)"
      using assms(9) by (auto simp: list_all_iff dest: in_set_takeD)
    from polls_removed [OF a sc(1), of c d] show ?thesis by simp
  qed
  show ?thesis using early sc late by simp
qed

theorem hysteresis_witness:
  "removed_instances
     (run_polls (Fin 1) 2 False [[(py ''a'', Fin 1)]] (initial (Some (py ''  server a;'' @ [NL])))) = {} \<and>
   removed_instances
     (run_polls (Fin 1) 2 False [[(py ''a'', Fin 1)], [(py ''a'', Fin 1)], [(py ''a'', Fin 2)]]
        (initial (Some (py ''  server a;'' @ [NL])))) = {py ''a''} \<and>
   events_of (py ''a'')
     (run_polls (Fin 1) 2 False [[(py ''a'', Fin 1)], [(py ''a'', Fin 1)], [(py ''a'', Fin 2)]]
        (initial (Some (py ''  server a;'' @ [NL])))) =
     [Event DEGRADATION_CONFIRMED (py ''a'') (ValueCount (Fin 1) 2),
      Event REMOVED_FROM_UPSTREAM (py ''a'') NoDetail]"
proof -
  let ?s0 = "initial (Some (py ''  server a;'' @ [NL]))"
  let ?p = "[(py ''a'', Fin 1)]"
  have h1: "(1::int) \<le> 2" by simp
  have h2: "counter_get (state_counters ?s0) (py ''a'') = 0" by (simp add: loop_eval)
  have h3: "py ''a'' \<notin> removed_instances ?s0" by (simp add: loop_eval)
  have h4: "int (length [?p]) = 2 - 1" by simp
  have h5: "list_all (unhealthy_poll (Fin 1) (py ''a'')) [?p]" by (simp add: loop_eval)
  have h6: "distinct (map fst ([] @ (py ''a'', Fin 1) # []))" by simp
  have h7: "fge (Fin 1) (Fin 1)" by simp
  have h8: "fst (comment_server_in_upstream (py ''a'') False
              (upstream (poll_cycle (Fin 1) 2 False [] (run_polls (Fin 1) 2 False [?p] ?s0))))"
    by (simp add: loop_eval editor_eval)
  have h9: "list_all (unhealthy_poll (Fin 1) (py ''a'')) [[(py ''a'', Fin 2)]]" by (simp add: loop_eval)
  have e0: "events_of (py ''a'') ?s0 = []" by (simp add: loop_eval)
  have r1: "removed_instances (run_polls (Fin 1) 2 False [?p] ?s0) = {}"
    by (simp add: loop_eval)
  have r3: "removed_instances
     (run_polls (Fin 1) 2 False [?p, ?p, [(py ''a'', Fin 2)]] ?s0) = {py ''a''}"
    by (simp add: loop_eval editor_eval)
  from hysteresis [OF h1 h2 h3 h4 h5 h6 h7 h8 h9, THEN conjunct2, THEN conjunct2, THEN conjunct2,
      rule_format, of 1]
  have "events_of (py ''a'')
          (run_polls (Fin 1) 2 False ([?p] @ [[] @ (py ''a'', Fin 1) # []] @ take 1 [[(py ''a'', Fin 2)]]) ?s0) =
        events_of (py ''a'') ?s0 @
          [Event DEGRADATION_CONFIRMED (py ''a'') (ValueCount (Fin 1) 2),
           Event REMOVED_FROM_UPSTREAM (py ''a'') NoDetail]"
    by simp
  then show ?thesis using e0 r1 r3 by simp
qed


lemma healthy_effects:
  assumes "\<not> fge v t"
  shows "removed_instances (process_sample t c d (inst, v) s) =
           (if inst \<in> removed_instances s \<and> fst (restore_server_in_upstream inst d (upstream s))
            then removed_instances s - {inst} else removed_instances s) \<and>
         events_log (process_sample t c d (inst, v) s) =
           events_log s @
           (if inst \<in> removed_instances s
            then Event HEALTHY_AGAIN inst (ValueOnly v) #
                 (if fst (restore_server_in_upstream inst d (upstream s))
                  then [Event RESTORED_TO_UPSTREAM inst NoDetail] else [])
            else []) \<and>
         upstream (process_sample t c d (inst, v) s) =
           (if inst \<in> removed_instances s
            then snd (restore_server_in_upstream inst d (upstream s)) else upstream s)"
proof (cases "inst \<in> removed_instances s")
  case True
  then show ?thesis using assms
    by (auto simp: process_sample_def on_healthy_removed Let_def)
next
  case False
  then show ?thesis using assms
    by (auto simp: process_sample_def on_healthy_not_removed)
qed

lemma healthy_counter:
  assumes "\<not> fge v t"
  shows "counter_get (state_counters (process_sample t c d (inst, v) s)) inst =
           (if 0 < counter_get (state_counters s) inst then 0
            else counter_get (state_counters s) inst)"
  using assms
  by (cases "inst \<in> removed_instances s")
     (simp_all add: process_sample_def on_healthy_removed on_healthy_not_removed Let_def)

lemma comment_failed_keeps_file:
  "\<not> fst (comment_server_in_upstream k d file) \<Longrightarrow> snd (comment_server_in_upstream k d file) = file"
  by (cases "file") (auto simp: comment_server_in_upstream_def split: prod.splits if_splits)

lemma restore_failed_keeps_file:
  "\<not> fst (restore_server_in_upstream k d file) \<Longrightarrow> snd (restore_server_in_upstream k d file) = file"
  by (cases "file") (auto simp: restore_server_in_upstream_def split: prod.splits if_splits)

text \<open>
  C2 (immediate recovery). One healthy sample of an instance (the value is not at or above
  the threshold) leaves its counter at 0, whatever the counter was; the counters of the
  loop are never negative (\<open>counters_nonneg_run\<close>). If the instance was marked removed and
  the restore edit reports a change, the sample appends one \<^verbatim>\<open>HEALTHY_AGAIN\<close> and one
  \<^verbatim>\<open>RESTORED_TO_UPSTREAM\<close> entry, leaves the file as that one restore left it and takes
  the instance out of \<^verbatim>\<open>removed_instances\<close>. If it was not marked removed, nothing but
  the counter changes.
\<close>

theorem immediate_recovery:
  assumes "\<not> fge v t" and "0 \<le> counter_get (state_counters s) inst"
  shows "counter_get (state_counters (process_sample t c d (inst, v) s)) inst = 0 \<and>
         (inst \<in> removed_instances s \<and> fst (restore_server_in_upstream inst d (upstream s)) \<longrightarrow>
            removed_instances (process_sample t c d (inst, v) s) = removed_instances s - {inst} \<and>
            events_log (process_sample t c d (inst, v) s) =
              events_log s @ [Event HEALTHY_AGAIN inst (ValueOnly v),
                              Event RESTORED_TO_UPSTREAM inst NoDetail] \<and>
            upstream (process_sample t c d (inst, v) s) =
              snd (restore_server_in_upstream inst d (upstream s))) \<and>
         (inst \<notin> removed_instances s \<longrightarrow>
            removed_instances (process_sample t c d (inst, v) s) = removed_instances s \<and>
            events_log (process_sample t c d (inst, v) s) = events_log s \<and>
            upstream (process_sample t c d (inst, v) s) = upstream s)"
  using healthy_effects [OF assms(1), of c d inst s] healthy_counter [OF assms(1), of c d inst s]
    assms(2)
  by auto

theorem immediate_recovery_witness:
  "\<not> fge (Fin 0) (Fin 1) \<and>
   process_sample (Fin 1) 2 False (py ''a'', Fin 0)
     \<lparr>state_counters = [py ''a'' \<mapsto> 5], removed_instances = {py ''a''}, events_log = [],
      upstream = Some (py ''# removed-by-monitor:a server a;'' @ [NL])\<rparr> =
     \<lparr>state_counters = [py ''a'' \<mapsto> 0], removed_instances = {}, events_log =
        [Event HEALTHY_AGAIN (py ''a'') (ValueOnly (Fin 0)),
         Event RESTORED_TO_UPSTREAM (py ''a'') NoDetail],
      upstream = Some (py ''    server a;'' @ [NL])\<rparr> \<and>
   counter_get (state_counters (process_sample (Fin 1) 2 False (py ''a'', Fin 0)
     \<lparr>state_counters = [py ''a'' \<mapsto> 5], removed_instances = {py ''a''}, events_log = [],
      upstream = Some (py ''# removed-by-monitor:a server a;'' @ [NL])\<rparr>)) (py ''a'') = 0"
proof -
  let ?s = "\<lparr>state_counters = [py ''a'' \<mapsto> 5], removed_instances = {py ''a''}, events_log = [],
      upstream = Some (py ''# removed-by-monitor:a server a;'' @ [NL])\<rparr>"
  have h1: "\<not> fge (Fin 0) (Fin 1)" by simp
  have h2: "0 \<le> counter_get (state_counters ?s) (py ''a'')" by (simp add: counter_get_def)
  have e: "process_sample (Fin 1) 2 False (py ''a'', Fin 0) ?s =
     \<lparr>state_counters = [py ''a'' \<mapsto> 0], removed_instances = {}, events_log =
        [Event HEALTHY_AGAIN (py ''a'') (ValueOnly (Fin 0)),
         Event RESTORED_TO_UPSTREAM (py ''a'') NoDetail],
      upstream = Some (py ''    server a;'' @ [NL])\<rparr>"
    by (simp add: loop_eval editor_eval)
  from immediate_recovery [OF h1 h2, of 2 False, THEN conjunct1] h1 e
  show ?thesis by simp
qed

text \<open>
  C7. In the iteration of the loop body for an instance: when removal is decided (unhealthy,
  not removed, counter at the threshold), \<^verbatim>\<open>DEGRADATION_CONFIRMED\<close> is appended whatever the
  edit returns, while \<^verbatim>\<open>REMOVED_FROM_UPSTREAM\<close> is appended and the instance enters
  \<^verbatim>\<open>removed_instances\<close> exactly when the disable returned \<^verbatim>\<open>True\<close>; when restoration is
  decided (healthy and removed), \<^verbatim>\<open>HEALTHY_AGAIN\<close> is appended whatever the edit returns,
  while \<^verbatim>\<open>RESTORED_TO_UPSTREAM\<close> is appended and the instance leaves the set exactly when
  the restore returned \<^verbatim>\<open>True\<close>. After an edit that returned \<^verbatim>\<open>False\<close> the set and the
  file are as before. In every other case the log, the set and the file are unchanged.
\<close>

theorem state_committed_after_change:
  fixes s :: monitor and t :: pyfloat and c :: int and d :: bool and inst :: pystr and v :: pyfloat
  defines "s' \<equiv> process_sample t c d (inst, v) s"
    and "n \<equiv> counter_get (state_counters s) inst + 1"
    and "changed \<equiv> fst (comment_server_in_upstream inst d (upstream s))"
    and "restored \<equiv> fst (restore_server_in_upstream inst d (upstream s))"
  shows "(fge v t \<and> inst \<notin> removed_instances s \<and> c \<le> n \<longrightarrow>
            events_log s' = events_log s @ Event DEGRADATION_CONFIRMED inst (ValueCount v n) #
              (if changed then [Event REMOVED_FROM_UPSTREAM inst NoDetail] else []) \<and>
            removed_instances s' =
              (if changed then insert inst (removed_instances s) else removed_instances s) \<and>
            upstream s' = snd (comment_server_in_upstream inst d (upstream s)) \<and>
            (\<not> changed \<longrightarrow> upstream s' = upstream s)) \<and>
         (fge v t \<and> (inst \<in> removed_instances s \<or> n < c) \<longrightarrow>
            events_log s' = events_log s \<and> removed_instances s' = removed_instances s \<and>
            upstream s' = upstream s) \<and>
         (\<not> fge v t \<and> inst \<in> removed_instances s \<longrightarrow>
            events_log s' = events_log s @ Event HEALTHY_AGAIN inst (ValueOnly v) #
              (if restored then [Event RESTORED_TO_UPSTREAM inst NoDetail] else []) \<and>
            removed_instances s' =
              (if restored then removed_instances s - {inst} else removed_instances s) \<and>
            upstream s' = snd (restore_server_in_upstream inst d (upstream s)) \<and>
            (\<not> restored \<longrightarrow> upstream s' = upstream s)) \<and>
         (\<not> fge v t \<and> inst \<notin> removed_instances s \<longrightarrow>
            events_log s' = events_log s \<and> removed_instances s' = removed_instances s \<and>
            upstream s' = upstream s)"
proof -
  have a: "fge v t \<Longrightarrow> inst \<notin> removed_instances s \<Longrightarrow> c \<le> n \<Longrightarrow>
            events_log s' = events_log s @ Event DEGRADATION_CONFIRMED inst (ValueCount v n) #
              (if changed then [Event REMOVED_FROM_UPSTREAM inst NoDetail] else []) \<and>
            removed_instances s' =
              (if changed then insert inst (removed_instances s) else removed_instances s) \<and>
            upstream s' = snd (comment_server_in_upstream inst d (upstream s)) \<and>
            (\<not> changed \<longrightarrow> upstream s' = upstream s)"
    unfolding s'_def n_def changed_def
    using degraded_fire [of v t inst s c d] comment_failed_keeps_file [of inst d "upstream s"]
    by simp
  have b: "fge v t \<Longrightarrow> inst \<in> removed_instances s \<or> n < c \<Longrightarrow>
            events_log s' = events_log s \<and> removed_instances s' = removed_instances s \<and>
            upstream s' = upstream s"
    unfolding s'_def n_def using degraded_quiet [of v t inst s c d] by simp
  have e: "\<not> fge v t \<Longrightarrow>
            (inst \<in> removed_instances s \<longrightarrow>
            events_log s' = events_log s @ Event HEALTHY_AGAIN inst (ValueOnly v) #
              (if restored then [Event RESTORED_TO_UPSTREAM inst NoDetail] else []) \<and>
            removed_instances s' =
              (if restored then removed_instances s - {inst} else removed_instances s) \<and>
            upstream s' = snd (restore_server_in_upstream inst d (upstream s)) \<and>
            (\<not> restored \<longrightarrow> upstream s' = upstream s)) \<and>
            (inst \<notin> removed_instances s \<longrightarrow>
            events_log s' = events_log s \<and> removed_instances s' = removed_instances s \<and>
            upstream s' = upstream s)"
    unfolding s'_def restored_def
    using healthy_effects [of v t c d inst s] restore_failed_keeps_file [of inst d "upstream s"]
    by simp
  from a b e show ?thesis by blast
qed

theorem state_committed_after_change_witness:
  "fge (Fin 1) (Fin 1) \<and> py ''a'' \<notin> removed_instances (initial None) \<and>
   1 \<le> counter_get (state_counters (initial None)) (py ''a'') + 1 \<and>
   \<not> fst (comment_server_in_upstream (py ''a'') False (upstream (initial None))) \<and>
   events_log (process_sample (Fin 1) 1 False (py ''a'', Fin 1) (initial None)) =
     [Event DEGRADATION_CONFIRMED (py ''a'') (ValueCount (Fin 1) 1)] \<and>
   removed_instances (process_sample (Fin 1) 1 False (py ''a'', Fin 1) (initial None)) = {} \<and>
   upstream (process_sample (Fin 1) 1 False (py ''a'', Fin 1) (initial None)) = None"
proof -
  have h1: "fge (Fin 1) (Fin 1)" by simp
  have h2: "py ''a'' \<notin> removed_instances (initial None)" by (simp add: initial_def)
  have h3: "1 \<le> counter_get (state_counters (initial None)) (py ''a'') + 1"
    by (simp add: initial_def counter_get_def)
  have h4: "\<not> fst (comment_server_in_upstream (py ''a'') False (upstream (initial None)))"
    by (simp add: initial_def comment_server_in_upstream_def)
  have i: "events_log (initial None) = []" "removed_instances (initial None) = {}"
    "upstream (initial None) = None" "counter_get (state_counters (initial None)) (py ''a'') = 0"
    by (simp_all add: initial_def counter_get_def)
  from state_committed_after_change [of "Fin 1" "Fin 1" "py ''a''" "initial None" 1 False,
      THEN conjunct1] h1 h2 h3 h4
  show ?thesis by (simp add: i comment_server_in_upstream_def)
qed


lemma failing_removal_step:
  assumes "fge v t" "inst \<notin> removed_instances s" "c \<le> counter_get (state_counters s) inst + 1"
    and "\<not> fst (comment_server_in_upstream inst d (upstream s))"
  shows "events_log (process_sample t c d (inst, v) s) =
           events_log s @
           [Event DEGRADATION_CONFIRMED inst (ValueCount v (counter_get (state_counters s) inst + 1))] \<and>
         inst \<notin> removed_instances (process_sample t c d (inst, v) s) \<and>
         counter_get (state_counters (process_sample t c d (inst, v) s)) inst =
           counter_get (state_counters s) inst + 1 \<and>
         upstream (process_sample t c d (inst, v) s) = upstream s"
  using degraded_fire [OF assms(1-3), of d] assms(2,4)
    comment_failed_keeps_file [OF assms(4)]
  by simp

lemma failing_restore_step:
  assumes "\<not> fge v t" "inst \<in> removed_instances s"
    and "\<not> fst (restore_server_in_upstream inst d (upstream s))"
  shows "events_log (process_sample t c d (inst, v) s) =
           events_log s @ [Event HEALTHY_AGAIN inst (ValueOnly v)] \<and>
         inst \<in> removed_instances (process_sample t c d (inst, v) s) \<and>
         upstream (process_sample t c d (inst, v) s) = upstream s"
  using healthy_effects [OF assms(1), of c d inst s] assms(2,3)
    restore_failed_keeps_file [OF assms(3)]
  by simp

lemma failing_removal_repeats:
  assumes "fge v t" "inst \<notin> removed_instances s" "c \<le> counter_get (state_counters s) inst + 1"
    and "\<not> fst (comment_server_in_upstream inst d (upstream s))"
  shows "events_log (run_polls t c d (replicate n [(inst, v)]) s) =
           events_log s @
           map (\<lambda>k. Event DEGRADATION_CONFIRMED inst
                      (ValueCount v (counter_get (state_counters s) inst + 1 + int k))) [0..<n]"
  using assms
proof (induction n arbitrary: s)
  case 0
  then show ?case by simp
next
  case (Suc n)
  let ?s1 = "process_sample t c d (inst, v) s"
  from failing_removal_step [OF Suc.prems]
  have st: "events_log ?s1 = events_log s @
           [Event DEGRADATION_CONFIRMED inst (ValueCount v (counter_get (state_counters s) inst + 1))]"
    "inst \<notin> removed_instances ?s1"
    "counter_get (state_counters ?s1) inst = counter_get (state_counters s) inst + 1"
    "upstream ?s1 = upstream s"
    by simp_all
  have a: "c \<le> counter_get (state_counters ?s1) inst + 1" using st(3) Suc.prems(3) by simp
  have b: "\<not> fst (comment_server_in_upstream inst d (upstream ?s1))"
    using st(4) Suc.prems(4) by simp
  have u: "[0..<Suc n] = 0 # map Suc [0..<n]"
    by (simp add: map_Suc_upt upt_conv_Cons del: upt_Suc)
  have "events_log (run_polls t c d (replicate (Suc n) [(inst, v)]) s) =
        events_log (run_polls t c d (replicate n [(inst, v)]) ?s1)"
    by (simp add: poll_cycle_def)
  also have "\<dots> = events_log ?s1 @
           map (\<lambda>k. Event DEGRADATION_CONFIRMED inst
                      (ValueCount v (counter_get (state_counters ?s1) inst + 1 + int k))) [0..<n]"
    by (rule Suc.IH [OF Suc.prems(1) st(2) a b])
  also have "\<dots> = events_log s @
           map (\<lambda>k. Event DEGRADATION_CONFIRMED inst
                      (ValueCount v (counter_get (state_counters s) inst + 1 + int k))) [0..<Suc n]"
    by (simp only: u st(1,3)) (simp add: comp_def add.commute add.left_commute)
  finally show ?case .
qed

lemma failing_restore_repeats:
  assumes "\<not> fge v t" "inst \<in> removed_instances s"
    and "\<not> fst (restore_server_in_upstream inst d (upstream s))"
  shows "events_log (run_polls t c d (replicate n [(inst, v)]) s) =
           events_log s @ replicate n (Event HEALTHY_AGAIN inst (ValueOnly v))"
  using assms
proof (induction n arbitrary: s)
  case 0
  then show ?case by simp
next
  case (Suc n)
  let ?s1 = "process_sample t c d (inst, v) s"
  from failing_restore_step [OF Suc.prems]
  have st: "events_log ?s1 = events_log s @ [Event HEALTHY_AGAIN inst (ValueOnly v)]"
    "inst \<in> removed_instances ?s1" "upstream ?s1 = upstream s"
    by simp_all
  have b: "\<not> fst (restore_server_in_upstream inst d (upstream ?s1))"
    using st(3) Suc.prems(3) by simp
  have "events_log (run_polls t c d (replicate (Suc n) [(inst, v)]) s) =
        events_log (run_polls t c d (replicate n [(inst, v)]) ?s1)"
    by (simp add: poll_cycle_def)
  also have "\<dots> = events_log ?s1 @ replicate n (Event HEALTHY_AGAIN inst (ValueOnly v))"
    by (rule Suc.IH [OF Suc.prems(1) st(2) b])
  also have "\<dots> = events_log s @ replicate (Suc n) (Event HEALTHY_AGAIN inst (ValueOnly v))"
    by (simp add: st(1) replicate_app_Cons_same)
  finally show ?case .
qed

text \<open>
  C9. An unhealthy sample of an instance that is not removed, whose counter reaches or
  exceeds the threshold with this sample and whose disable edit reports no change, appends
  a \<^verbatim>\<open>DEGRADATION_CONFIRMED\<close> entry and leaves the instance not removed, its counter at or
  above the threshold and the file as it was: the same happens at its next unhealthy
  sample, so \<open>n\<close> such polls append \<open>n\<close> entries. In the same way a healthy sample of a
  removed instance whose restore edit reports no change appends a \<^verbatim>\<open>HEALTHY_AGAIN\<close> entry
  and leaves the instance removed, and \<open>n\<close> such polls append \<open>n\<close> entries.
\<close>

theorem detection_repeats_while_edit_fails:
  "(fge v t \<and> inst \<notin> removed_instances s \<and> c \<le> counter_get (state_counters s) inst + 1 \<and>
    \<not> fst (comment_server_in_upstream inst d (upstream s)) \<longrightarrow>
      events_log (process_sample t c d (inst, v) s) =
        events_log s @
        [Event DEGRADATION_CONFIRMED inst (ValueCount v (counter_get (state_counters s) inst + 1))] \<and>
      inst \<notin> removed_instances (process_sample t c d (inst, v) s) \<and>
      c \<le> counter_get (state_counters (process_sample t c d (inst, v) s)) inst \<and>
      upstream (process_sample t c d (inst, v) s) = upstream s \<and>
      events_log (run_polls t c d (replicate n [(inst, v)]) s) =
        events_log s @
        map (\<lambda>k. Event DEGRADATION_CONFIRMED inst
                   (ValueCount v (counter_get (state_counters s) inst + 1 + int k))) [0..<n]) \<and>
   (\<not> fge v t \<and> inst \<in> removed_instances s \<and>
    \<not> fst (restore_server_in_upstream inst d (upstream s)) \<longrightarrow>
      events_log (process_sample t c d (inst, v) s) =
        events_log s @ [Event HEALTHY_AGAIN inst (ValueOnly v)] \<and>
      inst \<in> removed_instances (process_sample t c d (inst, v) s) \<and>
      upstream (process_sample t c d (inst, v) s) = upstream s \<and>
      events_log (run_polls t c d (replicate n [(inst, v)]) s) =
        events_log s @ replicate n (Event HEALTHY_AGAIN inst (ValueOnly v)))"
  using failing_removal_step [of v t inst s c d] failing_removal_repeats [of v t inst s c d n]
    failing_restore_step [of v t inst s d c] failing_restore_repeats [of v t inst s d c n]
  by simp

theorem detection_repeats_while_edit_fails_witness:
  "fge (Fin 1) (Fin 1) \<and> py ''a'' \<notin> removed_instances (initial None) \<and>
   1 \<le> counter_get (state_counters (initial None)) (py ''a'') + 1 \<and>
   \<not> fst (comment_server_in_upstream (py ''a'') False (upstream (initial None))) \<and>
   events_log (run_polls (Fin 1) 1 False (replicate 3 [(py ''a'', Fin 1)]) (initial None)) =
     [Event DEGRADATION_CONFIRMED (py ''a'') (ValueCount (Fin 1) 1),
      Event DEGRADATION_CONFIRMED (py ''a'') (ValueCount (Fin 1) 2),
      Event DEGRADATION_CONFIRMED (py ''a'') (ValueCount (Fin 1) 3)]"
proof -
  have h1: "fge (Fin 1) (Fin 1)" by simp
  have h2: "py ''a'' \<notin> removed_instances (initial None)" by (simp add: initial_def)
  have h3: "1 \<le> counter_get (state_counters (initial None)) (py ''a'') + 1"
    by (simp add: initial_def counter_get_def)
  have h4: "\<not> fst (comment_server_in_upstream (py ''a'') False (upstream (initial None)))"
    by (simp add: initial_def comment_server_in_upstream_def)
  have i: "events_log (initial None) = []"
    "counter_get (state_counters (initial None)) (py ''a'') = 0"
    by (simp_all add: initial_def counter_get_def)
  have u: "[0..<3] = [0, 1, 2]" by (simp add: upt_rec)
  from detection_repeats_while_edit_fails [of "Fin 1" "Fin 1" "py ''a''" "initial None" 1 False 3,
      THEN conjunct1] h1 h2 h3 h4
  have "events_log (run_polls (Fin 1) 1 False (replicate 3 [(py ''a'', Fin 1)]) (initial None)) =
        events_log (initial None) @
        map (\<lambda>k. Event DEGRADATION_CONFIRMED (py ''a'')
                   (ValueCount (Fin 1) (counter_get (state_counters (initial None)) (py ''a'') + 1 + int k)))
          [0..<3]"
    by blast
  then show ?thesis using h1 h2 h3 h4 by (simp add: i u)
qed

section \<open>The inventory service: the admin state\<close>

lemma state_keys: "map fst STATE_VALUES = [py ''healthy'', py ''degraded'', py ''down'']"
  by (simp add: STATE_VALUES_def)

lemma in_state_keys: "st \<in> fst ` set STATE_VALUES \<longleftrightarrow> (\<exists>n. map_of STATE_VALUES st = Some n)"
  by (metis map_of_eq_None_iff not_None_eq)

lemma set_state_key:
  "map_of STATE_VALUES st = Some n \<Longrightarrow>
     set_state st a = (None, a\<lparr>service_state := st, SERVICE_STATE := of_int n\<rparr>)"
  by (simp add: set_state_def set_gauge_def store_state_def)

lemma post_valid:
  assumes "body = JObj kvs" "map_of kvs (py ''state'') = Some (JStr st)"
    and "map_of STATE_VALUES st = Some n"
  shows "update_admin_state body a =
           (Inr (State_is st 200), a\<lparr>service_state := st, SERVICE_STATE := of_int n\<rparr>)"
proof -
  from assms(2) have "kvs \<noteq> []" by auto
  moreover from assms(3) have "st \<in> set (map fst STATE_VALUES)" by (simp add: in_state_keys)
  ultimately show ?thesis
    using assms by (simp add: update_admin_state_def json_get_def set_state_key)
qed

lemma post_falsy:
  "\<not> py_truthy body \<Longrightarrow>
     update_admin_state body a = (Inr (Invalid_state (map fst STATE_VALUES) 400), a)"
  by (simp add: update_admin_state_def json_get_def)

lemma post_no_state:
  assumes "body = JObj kvs" "map_of kvs (py ''state'') = None"
  shows "update_admin_state body a = (Inr (Invalid_state (map fst STATE_VALUES) 400), a)"
  using assms by (cases "kvs = []") (simp_all add: update_admin_state_def json_get_def)

lemma post_other_state:
  assumes "body = JObj kvs" "map_of kvs (py ''state'') = Some v" "hashable v"
    and "\<forall>st. v = JStr st \<longrightarrow> map_of STATE_VALUES st = None"
  shows "update_admin_state body a = (Inr (Invalid_state (map fst STATE_VALUES) 400), a)"
proof -
  from assms(2) have ne: "kvs \<noteq> []" by auto
  show ?thesis
  proof (cases v)
    case (JStr st)
    with assms(4) have "st \<notin> set (map fst STATE_VALUES)" by (simp add: in_state_keys)
    then show ?thesis using assms(1,2) ne JStr
      by (simp add: update_admin_state_def json_get_def)
  qed (use assms ne in \<open>simp_all add: update_admin_state_def json_get_def\<close>)
qed

lemma post_not_object:
  assumes "py_truthy body" "\<forall>kvs. body \<noteq> JObj kvs"
  shows "update_admin_state body a = (Inl AttributeError, a)"
  using assms by (cases body) (simp_all add: update_admin_state_def json_get_def)

lemma post_unhashable_state:
  assumes "body = JObj kvs" "map_of kvs (py ''state'') = Some v" "\<not> hashable v"
  shows "update_admin_state body a = (Inl TypeError, a)"
proof -
  from assms(2) have "kvs \<noteq> []" by auto
  then show ?thesis using assms by (simp add: update_admin_state_def json_get_def)
qed

lemma post_cases:
  obtains
    (valid) kvs st n where "body = JObj kvs" "map_of kvs (py ''state'') = Some (JStr st)"
      "map_of STATE_VALUES st = Some n"
  | (falsy) "\<not> py_truthy body"
  | (no_state) kvs where "body = JObj kvs" "map_of kvs (py ''state'') = None"
  | (other) kvs v where "body = JObj kvs" "map_of kvs (py ''state'') = Some v" "hashable v"
      "\<forall>st. v = JStr st \<longrightarrow> map_of STATE_VALUES st = None"
  | (not_object) "py_truthy body" "\<forall>kvs. body \<noteq> JObj kvs"
  | (unhashable) kvs v where "body = JObj kvs" "map_of kvs (py ''state'') = Some v" "\<not> hashable v"
proof (cases "\<exists>kvs. body = JObj kvs")
  case False
  then show ?thesis using falsy not_object by (cases "py_truthy body") auto
next
  case True
  then obtain kvs where b: "body = JObj kvs" by blast
  show ?thesis
  proof (cases "map_of kvs (py ''state'')")
    case None
    with b show ?thesis using no_state by blast
  next
    case (Some v)
    show ?thesis
    proof (cases "hashable v")
      case False
      with b Some show ?thesis using unhashable by blast
    next
      case True
      show ?thesis
      proof (cases "\<exists>st n. v = JStr st \<and> map_of STATE_VALUES st = Some n")
        case True
        with b Some show ?thesis using valid by blast
      next
        case False
        then have "\<forall>st. v = JStr st \<longrightarrow> map_of STATE_VALUES st = None" by auto
        with b Some \<open>hashable v\<close> show ?thesis using other by blast
      qed
    qed
  qed
qed

lemma post_consistent:
  assumes "state_consistent a"
  shows "state_consistent (snd (update_admin_state body a))"
proof (cases body rule: post_cases)
  case (valid kvs st n)
  then show ?thesis by (simp add: post_valid state_consistent_def)
qed (use assms in \<open>simp_all add: post_falsy post_no_state post_other_state post_not_object
      post_unhashable_state\<close>)

lemma after_posts_consistent:
  "state_consistent a \<Longrightarrow> state_consistent (after_posts bodies a)"
  unfolding after_posts_def
  by (induction bodies arbitrary: a) (simp_all add: post_consistent)

lemma initial_consistent: "state_consistent app_initial"
  by (simp add: state_consistent_def app_initial_def STATE_VALUES_def py_def)

text \<open>
  C10 says that the stored state is always one of the three names with the gauge at its
  encoding, and that every body without such a state is answered with 400. The code breaks
  both. The body \<^verbatim>\<open>{"state": []}\<close> makes \<^verbatim>\<open>new_state not in STATE_VALUES\<close> raise
  \<^verbatim>\<open>TypeError\<close> and the body \<^verbatim>\<open>[null]\<close> has no \<^verbatim>\<open>get\<close>: the handler raises where
  every other invalid body gets its 400 response. And \<^verbatim>\<open>set_state\<close> sets the gauge after
  releasing the lock: when a request for \<^verbatim>\<open>down\<close> and a request for \<^verbatim>\<open>healthy\<close> run
  together and the first sets the gauge last, the stored state is \<^verbatim>\<open>healthy\<close> and the
  gauge is 2.
\<close>

theorem admin_state_defects:
  "update_admin_state (JObj [(py ''state'', JArr [])]) app_initial = (Inl TypeError, app_initial) \<and>
   update_admin_state (JArr [JNull]) app_initial = (Inl AttributeError, app_initial) \<and>
   [Store (py ''down''), Store (py ''healthy''), Gauge (py ''healthy''), Gauge (py ''down'')]
     \<in> shuffles (handler_steps (py ''down'')) (handler_steps (py ''healthy'')) \<and>
   run_schedule
     [Store (py ''down''), Store (py ''healthy''), Gauge (py ''healthy''), Gauge (py ''down'')]
     app_initial = \<lparr>service_state = py ''healthy'', SERVICE_STATE = 2\<rparr> \<and>
   \<not> state_consistent \<lparr>service_state = py ''healthy'', SERVICE_STATE = 2\<rparr>"
  by (simp add: update_admin_state_def json_get_def py_def handler_steps_def run_schedule_def
      store_state_def set_gauge_def STATE_VALUES_def app_initial_def state_consistent_def)

text \<open>
  What the handler does when requests are taken one after the other. The stored state is
  then one of the three names and the gauge its encoding, initially and after every
  sequence of \<^verbatim>\<open>POST /admin/state\<close> requests, whatever their bodies. A body that is an
  object whose \<^verbatim>\<open>state\<close> is one of the three names updates both together and is
  answered with 200. A body that is missing, not JSON or empty, or an object whose
  \<^verbatim>\<open>state\<close> is absent or a hashable value other than the three names, is answered with
  400 and leaves both unchanged. A non-empty body that is not an object, and an object
  whose \<^verbatim>\<open>state\<close> is a list or an object, make the handler raise, and leave both
  unchanged.
\<close>

lemma sequential_posts:
  "state_consistent app_initial \<and>
   state_consistent (after_posts bodies app_initial) \<and>
   (state_consistent a \<longrightarrow> state_consistent (snd (update_admin_state body a))) \<and>
   (body = JObj kvs \<and> map_of kvs (py ''state'') = Some (JStr st) \<and>
    map_of STATE_VALUES st = Some n \<longrightarrow>
      update_admin_state body a =
        (Inr (State_is st 200), a\<lparr>service_state := st, SERVICE_STATE := of_int n\<rparr>)) \<and>
   (\<not> py_truthy body \<or>
    body = JObj kvs \<and>
      (case map_of kvs (py ''state'') of
         None \<Rightarrow> True
       | Some v \<Rightarrow> hashable v \<and> (\<forall>s. v = JStr s \<longrightarrow> map_of STATE_VALUES s = None)) \<longrightarrow>
      update_admin_state body a = (Inr (Invalid_state (map fst STATE_VALUES) 400), a)) \<and>
   (py_truthy body \<and> (\<forall>kvs. body \<noteq> JObj kvs) \<longrightarrow>
      update_admin_state body a = (Inl AttributeError, a)) \<and>
   (body = JObj kvs \<and> map_of kvs (py ''state'') = Some v \<and> \<not> hashable v \<longrightarrow>
      update_admin_state body a = (Inl TypeError, a))"
proof -
  have i: "\<not> py_truthy body \<or>
    body = JObj kvs \<and>
      (case map_of kvs (py ''state'') of
         None \<Rightarrow> True
       | Some v \<Rightarrow> hashable v \<and> (\<forall>s. v = JStr s \<longrightarrow> map_of STATE_VALUES s = None)) \<Longrightarrow>
      update_admin_state body a = (Inr (Invalid_state (map fst STATE_VALUES) 400), a)"
    using post_falsy [of body a] post_no_state [of body kvs a] post_other_state [of body kvs _ a]
    by (auto split: option.splits)
  show ?thesis
    using initial_consistent after_posts_consistent [OF initial_consistent, of bodies]
      post_consistent [of a body] post_valid [of body kvs st n a] i
      post_not_object [of body a] post_unhashable_state [of body kvs v a]
    by blast
qed

lemma sequential_posts_example:
  "map_of [(py ''state'', JStr (py ''down''))] (py ''state'') = Some (JStr (py ''down'')) \<and>
   map_of STATE_VALUES (py ''down'') = Some 2 \<and>
   update_admin_state (JObj [(py ''state'', JStr (py ''down''))]) app_initial =
     (Inr (State_is (py ''down'') 200), \<lparr>service_state = py ''down'', SERVICE_STATE = 2\<rparr>) \<and>
   state_consistent \<lparr>service_state = py ''down'', SERVICE_STATE = 2\<rparr>"
proof -
  have h1: "map_of [(py ''state'', JStr (py ''down''))] (py ''state'') = Some (JStr (py ''down''))"
    by simp
  have h2: "map_of STATE_VALUES (py ''down'') = Some 2" by (simp add: STATE_VALUES_def py_def)
  have c: "state_consistent \<lparr>service_state = py ''down'', SERVICE_STATE = 2\<rparr>"
    using h2 by (simp add: state_consistent_def)
  from sequential_posts [of "[]" app_initial "JObj [(py ''state'', JStr (py ''down''))]"
      "[(py ''state'', JStr (py ''down''))]" "py ''down''" 2 "JNull",
      THEN conjunct2, THEN conjunct2, THEN conjunct2, THEN conjunct1] h1 h2 c
  show ?thesis by (simp add: app_initial_def)
qed

section \<open>The health query\<close>

lemma py_eq_JStr [simp]: "py_eq x (JStr s) \<longleftrightarrow> x = JStr s"
  by (cases x) (simp_all add: py_eq_def)

lemma dict_get_update:
  "dict_get (dict_update (JStr k) v d) (JStr k') =
     (if k = k' then Some v else dict_get d (JStr k'))"
  by (induction d) auto

lemma keys_dict_update:
  "fst ` set (dict_update (JStr k) v d) = insert (JStr k) (fst ` set d)"
proof (induction d)
  case Nil
  then show ?case by simp
next
  case (Cons kv d)
  then show ?case by (cases kv) (auto simp: image_iff)
qed

lemma distinct_dict_update:
  "distinct (map fst d) \<Longrightarrow> distinct (map fst (dict_update (JStr k) v d))"
  by (induction d) (auto simp: keys_dict_update)

lemma stored_Nil [simp]: "stored [] d = d"
  by (simp add: stored_def)

lemma stored_Cons [simp]: "stored (kv # kvs) d = stored kvs (dict_update (JStr (fst kv)) (snd kv) d)"
  by (simp add: stored_def)

lemma dict_get_stored:
  "dict_get (stored kvs d) (JStr k) =
     (case map_of (rev kvs) k of None \<Rightarrow> dict_get d (JStr k) | Some v \<Rightarrow> Some v)"
proof (induction kvs arbitrary: d)
  case Nil
  then show ?case by simp
next
  case (Cons kv kvs)
  then show ?case
    by (cases kv) (auto simp: dict_get_update map_add_def split: option.splits)
qed

lemma keys_stored: "fst ` set (stored kvs d) = fst ` set d \<union> JStr ` fst ` set kvs"
  by (induction kvs arbitrary: d) (auto simp: keys_dict_update)

lemma distinct_stored: "distinct (map fst d) \<Longrightarrow> distinct (map fst (stored kvs d))"
  by (induction kvs arbitrary: d) (simp_all add: distinct_dict_update)

lemma label_is_str:
  assumes "list_all (\<lambda>kv. is_str (snd kv)) labels" "map_of labels k = Some v"
  obtains s where "v = JStr s"
proof -
  from assms(2) have "(k, v) \<in> set labels" by (rule map_of_SomeD)
  with assms(1) have "is_str v" by (auto simp: list_all_iff)
  then show thesis using that by (cases v) simp_all
qed

lemma truthy_lookup:
  assumes "list_all (\<lambda>kv. is_str (snd kv)) labels"
  shows "py_truthy (case map_of labels k of None \<Rightarrow> JNull | Some v \<Rightarrow> v) =
           (str_or_empty (map_of labels k) \<noteq> [])"
proof (cases "map_of labels k")
  case None
  then show ?thesis by simp
next
  case (Some v)
  with assms obtain s where "v = JStr s" by (rule label_is_str)
  with Some show ?thesis by simp
qed

lemma lookup_when_truthy:
  assumes "list_all (\<lambda>kv. is_str (snd kv)) labels" "str_or_empty (map_of labels k) \<noteq> []"
  shows "(case map_of labels k of None \<Rightarrow> JNull | Some v \<Rightarrow> v) = JStr (str_or_empty (map_of labels k))"
proof (cases "map_of labels k")
  case None
  with assms(2) show ?thesis by simp
next
  case (Some v)
  from assms(1) Some obtain s where "v = JStr s" by (rule label_is_str)
  with Some show ?thesis by simp
qed

text \<open>The labels and the value of a well-formed item, as the loop computes them.\<close>

lemma wf_item_metric:
  assumes "wf_item item"
  shows "json_get item (py ''metric'') (JObj []) = Inr (JObj (item_labels item)) \<and>
         list_all (\<lambda>kv. is_str (snd kv)) (item_labels item)"
proof -
  from assms obtain kvs where i: "item = JObj kvs"
    by (cases item) (simp_all add: wf_item_def)
  show ?thesis
  proof (cases "map_of kvs (py ''metric'')")
    case None
    then show ?thesis by (simp add: i json_get_def item_labels_def)
  next
    case (Some m)
    with assms i obtain labels where "m = JObj labels" "list_all (\<lambda>kv. is_str (snd kv)) labels"
      by (cases m) (simp_all add: wf_item_def)
    with Some show ?thesis by (simp add: i json_get_def item_labels_def)
  qed
qed

lemma wf_item_value:
  assumes "wf_item item"
  shows "(case json_get item (py ''value'') (JArr []) of
            Inl e \<Rightarrow> None
          | Inr x \<Rightarrow> (case subscript1 x of None \<Rightarrow> None | Some y \<Rightarrow> fl y)) = item_value fl item"
proof -
  from assms obtain kvs where i: "item = JObj kvs"
    by (cases item) (simp_all add: wf_item_def)
  show ?thesis by (simp add: i json_get_def item_value_def split: option.splits)
qed

lemma parse_items_step:
  assumes "wf_item item"
  shows "parse_items fl (item # items) out =
           (case item_value fl item of
              None \<Rightarrow> parse_items fl items out
            | Some v \<Rightarrow>
                if item_label item \<noteq> []
                then parse_items fl items (dict_update (JStr (item_label item)) v out)
                else parse_items fl items out)"
proof -
  let ?ls = "item_labels item"
  let ?i = "str_or_empty (map_of ?ls (py ''instance''))"
  let ?j = "str_or_empty (map_of ?ls (py ''job''))"
  from wf_item_metric [OF assms]
  have m: "json_get item (py ''metric'') (JObj []) = Inr (JObj ?ls)"
    and ls: "list_all (\<lambda>kv. is_str (snd kv)) ?ls" by simp_all
  have gi: "json_get (JObj ?ls) (py ''instance'') JNull =
              Inr (case map_of ?ls (py ''instance'') of None \<Rightarrow> JNull | Some v \<Rightarrow> v)"
    and gj: "json_get (JObj ?ls) (py ''job'') JNull =
              Inr (case map_of ?ls (py ''job'') of None \<Rightarrow> JNull | Some v \<Rightarrow> v)"
    by (simp_all add: json_get_def)
  note v = wf_item_value [OF assms, of fl]
  show ?thesis
  proof (cases "?i \<noteq> []")
    case True
    then have l: "item_label item = ?i" by (simp add: item_label_def)
    have t: "py_truthy (case map_of ?ls (py ''instance'') of None \<Rightarrow> JNull | Some v \<Rightarrow> v)"
      using True by (simp add: truthy_lookup [OF ls])
    have e: "(case map_of ?ls (py ''instance'') of None \<Rightarrow> JNull | Some v \<Rightarrow> v) = JStr ?i"
      using True by (rule lookup_when_truthy [OF ls])
    show ?thesis
      using True
      by (simp only: parse_items.simps m gi sum.case t if_True v e l)
         (simp add: dict_set_def split: option.splits)?
  next
    case False
    then have l: "item_label item = ?j" by (simp add: item_label_def)
    have t: "\<not> py_truthy (case map_of ?ls (py ''instance'') of None \<Rightarrow> JNull | Some v \<Rightarrow> v)"
      using False by (simp add: truthy_lookup [OF ls])
    show ?thesis
    proof (cases "?j \<noteq> []")
      case True
      have e: "(case map_of ?ls (py ''job'') of None \<Rightarrow> JNull | Some v \<Rightarrow> v) = JStr ?j"
        using True by (rule lookup_when_truthy [OF ls])
      show ?thesis
        using True
        by (simp only: parse_items.simps m gi gj sum.case t if_False v e l)
           (simp add: dict_set_def split: option.splits)?
    next
      case False
      then have f: "\<not> py_truthy (case map_of ?ls (py ''job'') of None \<Rightarrow> JNull | Some v \<Rightarrow> v)"
        by (simp add: truthy_lookup [OF ls])
      show ?thesis
        using False f
        by (simp only: parse_items.simps m gi gj sum.case t if_False v l)
           (simp split: option.splits)?
    qed
  qed
qed

lemma reported_Cons:
  "reported fl (item # items) =
     (case item_value fl item of
        None \<Rightarrow> reported fl items
      | Some v \<Rightarrow>
          if item_label item \<noteq> [] then (item_label item, v) # reported fl items
          else reported fl items)"
  by (simp add: reported_def split: option.splits)

lemma parse_items_wf:
  "list_all wf_item items \<Longrightarrow> parse_items fl items out = Inr (stored (reported fl items) out)"
proof (induction items arbitrary: out)
  case Nil
  then show ?case by (simp add: reported_def)
next
  case (Cons item items)
  then have w: "wf_item item" and ws: "list_all wf_item items" by simp_all
  show ?case
    by (simp add: parse_items_step [OF w] reported_Cons Cons.IH [OF ws]
        del: parse_items.simps split: option.splits)
qed


lemma wf_envelope_parse:
  assumes "wf_envelope j"
  shows "parse_inventory_states fl j = Inr (stored (reported fl (envelope_items j)) [])"
proof -
  from assms obtain kvs where j: "j = JObj kvs"
    by (cases j) (simp_all add: wf_envelope_def json_get_def)
  from assms j have st: "map_of kvs (py ''status'') = Some (JStr (py ''success''))"
    by (auto simp: wf_envelope_def json_get_def split: option.splits json.splits)
  then have ne: "kvs \<noteq> []" by auto
  from assms j st obtain dkvs where d: "map_of kvs (py ''data'') = Some (JObj dkvs)"
    by (auto simp: wf_envelope_def json_get_def split: option.splits json.splits)
  from assms j st d obtain items where r: "map_of dkvs (py ''result'') = Some (JArr items)"
    and w: "list_all wf_item items"
    by (auto simp: wf_envelope_def json_get_def split: option.splits json.splits)
  have e: "envelope_items (JObj kvs) = items" by (simp add: envelope_items_def json_get_def d r)
  show ?thesis
    by (simp add: parse_inventory_states_def json_get_def j ne st d r e parse_items_wf [OF w])
qed

lemmas json_eval =
  parse_inventory_states_def query_prom_def json_get_def dict_set_def py_eq_def py_def
  float_sample_def wf_envelope_def wf_item_def envelope_items_def reported_def item_value_def
  item_label_def item_labels_def stored_def

text \<open>
  C6 says that a body that is JSON but not the envelope gives the empty mapping, as a
  transport error, an error status, a body that is not JSON, \<^verbatim>\<open>null\<close> and a missing
  \<^verbatim>\<open>data\<close> or \<^verbatim>\<open>result\<close> do. The code raises instead: a non-empty list has no
  \<^verbatim>\<open>get\<close>, nor has a \<^verbatim>\<open>data\<close> that is a list, and a \<^verbatim>\<open>result\<close> that is a number
  cannot be iterated. \<^verbatim>\<open>query_prom\<close> returns such a body as it is,
  \<^verbatim>\<open>parse_inventory_states\<close> raises, and nothing in \<^verbatim>\<open>main\<close> catches it.
\<close>

theorem health_query_raises:
  "parse_inventory_states float_sample (query_prom (JsonValue (JArr [JNull]))) =
     Inl AttributeError \<and>
   parse_inventory_states float_sample
     (query_prom (JsonValue (JObj [(py ''status'', JStr (py ''success'')),
                                   (py ''data'', JArr [])]))) = Inl AttributeError \<and>
   parse_inventory_states float_sample
     (query_prom (JsonValue (JObj [(py ''status'', JStr (py ''success'')),
                                   (py ''data'', JObj [(py ''result'', JInt 5)])]))) =
     Inl TypeError"
  by (simp add: json_eval)

text \<open>
  The part of the pipeline that is as claimed. When \<^verbatim>\<open>requests.get\<close>,
  \<^verbatim>\<open>raise_for_status\<close> or \<^verbatim>\<open>r.json()\<close> raises
  (transport error, error status, body that is not JSON), the pipeline returns the empty
  mapping; so it does for a body that is a falsy JSON value and for an object whose
  \<^verbatim>\<open>status\<close> is not \<^verbatim>\<open>"success"\<close>. For a well-formed envelope it returns, without
  raising, the mapping of the results that have a value \<^verbatim>\<open>float\<close> accepts and a
  non-empty label (\<^verbatim>\<open>instance\<close>, else \<^verbatim>\<open>job\<close>): its keys are the labels of these results,
  each once, and the value of a key is that of the last such result with the label. The
  other results are left out.
\<close>

lemma handled_responses:
  "parse_inventory_states fl (query_prom GetRaises) = Inr [] \<and>
   parse_inventory_states fl (query_prom StatusRaises) = Inr [] \<and>
   parse_inventory_states fl (query_prom JsonRaises) = Inr [] \<and>
   (\<not> py_truthy j \<longrightarrow> parse_inventory_states fl (query_prom (JsonValue j)) = Inr []) \<and>
   (j = JObj kvs \<and> map_of kvs (py ''status'') \<noteq> Some (JStr (py ''success'')) \<longrightarrow>
      parse_inventory_states fl (query_prom (JsonValue j)) = Inr []) \<and>
   (wf_envelope j \<longrightarrow>
      parse_inventory_states fl (query_prom (JsonValue j)) =
        Inr (stored (reported fl (envelope_items j)) []) \<and>
      fst ` set (stored (reported fl (envelope_items j)) []) =
        JStr ` fst ` set (reported fl (envelope_items j)) \<and>
      distinct (map fst (stored (reported fl (envelope_items j)) [])) \<and>
      (\<forall>k. dict_get (stored (reported fl (envelope_items j)) []) (JStr k) =
            map_of (rev (reported fl (envelope_items j))) k))"
proof -
  have a: "parse_inventory_states fl JNull = Inr []" by (simp add: parse_inventory_states_def)
  have b: "\<not> py_truthy j \<Longrightarrow> parse_inventory_states fl j = Inr []"
    by (simp add: parse_inventory_states_def)
  have c: "j = JObj kvs \<Longrightarrow> map_of kvs (py ''status'') \<noteq> Some (JStr (py ''success'')) \<Longrightarrow>
             parse_inventory_states fl j = Inr []"
    by (auto simp: parse_inventory_states_def json_get_def split: option.splits)
  have d: "dict_get (stored kvs' []) (JStr k) = map_of (rev kvs') k" for kvs' k
    by (simp add: dict_get_stored split: option.splits)
  show ?thesis
    using a b c wf_envelope_parse [of j fl]
    by (simp add: query_prom_def keys_stored distinct_stored d)
qed

lemma missing_parts_handled:
  "parse_inventory_states fl (query_prom (JsonValue JNull)) = Inr [] \<and>
   parse_inventory_states fl
     (query_prom (JsonValue (JObj [(py ''status'', JStr (py ''success''))]))) = Inr [] \<and>
   parse_inventory_states fl
     (query_prom (JsonValue (JObj [(py ''status'', JStr (py ''success'')),
                                   (py ''data'', JObj [(py ''other'', JNull)])]))) = Inr []"
  by (simp add: parse_inventory_states_def query_prom_def json_get_def py_def)

lemma handled_responses_example:
  "wf_envelope
     (JObj [(py ''status'', JStr (py ''success'')),
            (py ''data'', JObj [(py ''result'', JArr [
               JObj [(py ''metric'', JObj [(py ''instance'', JStr (py ''a''))]),
                     (py ''value'', JArr [JInt 5, JStr (py ''1'')])],
               JObj [(py ''metric'', JObj [(py ''job'', JStr (py ''b''))]),
                     (py ''value'', JArr [JInt 5, JStr (py ''x'')])],
               JObj [(py ''metric'', JObj []), (py ''value'', JArr [JInt 5, JStr (py ''2'')])],
               JObj [(py ''metric'', JObj [(py ''instance'', JStr (py ''a''))]),
                     (py ''value'', JArr [JInt 5, JStr (py ''0'')])]])])]) \<and>
   parse_inventory_states float_sample (query_prom (JsonValue
     (JObj [(py ''status'', JStr (py ''success'')),
            (py ''data'', JObj [(py ''result'', JArr [
               JObj [(py ''metric'', JObj [(py ''instance'', JStr (py ''a''))]),
                     (py ''value'', JArr [JInt 5, JStr (py ''1'')])],
               JObj [(py ''metric'', JObj [(py ''job'', JStr (py ''b''))]),
                     (py ''value'', JArr [JInt 5, JStr (py ''x'')])],
               JObj [(py ''metric'', JObj []), (py ''value'', JArr [JInt 5, JStr (py ''2'')])],
               JObj [(py ''metric'', JObj [(py ''instance'', JStr (py ''a''))]),
                     (py ''value'', JArr [JInt 5, JStr (py ''0'')])]])])]))) =
     Inr [(JStr (py ''a''), Fin 0)]"
proof -
  let ?j = "JObj [(py ''status'', JStr (py ''success'')),
            (py ''data'', JObj [(py ''result'', JArr [
               JObj [(py ''metric'', JObj [(py ''instance'', JStr (py ''a''))]),
                     (py ''value'', JArr [JInt 5, JStr (py ''1'')])],
               JObj [(py ''metric'', JObj [(py ''job'', JStr (py ''b''))]),
                     (py ''value'', JArr [JInt 5, JStr (py ''x'')])],
               JObj [(py ''metric'', JObj []), (py ''value'', JArr [JInt 5, JStr (py ''2'')])],
               JObj [(py ''metric'', JObj [(py ''instance'', JStr (py ''a''))]),
                     (py ''value'', JArr [JInt 5, JStr (py ''0'')])]])])]"
  have h: "wf_envelope ?j" by (simp add: json_eval)
  have r: "stored (reported float_sample (envelope_items ?j)) [] = [(JStr (py ''a''), Fin 0)]"
    by (simp add: json_eval map_filter_simps)
  from handled_responses [of float_sample ?j "[]", THEN conjunct2, THEN conjunct2, THEN conjunct2,
      THEN conjunct2, THEN conjunct2] h r
  show ?thesis by simp
qed

end
